theory Spec2Isabelle
  imports Main
begin

section \<open>JavaScript strings\<close>

text \<open>
  A JavaScript string is a sequence of UTF-16 code units. The strings of this development
  are Isabelle strings: the character with code \<open>n\<close> stands for the code unit \<open>n\<close>, so
  the model covers every string over the code units U+0000 .. U+00FF (ASCII and the
  Latin-1 supplement, which holds the accented letters of the repository's tests).
  On these code units \<open>toLowerCase\<close>, \<open>trim\<close> and the classes \<open>\w\<close> and \<open>\s\<close> of a
  regular expression without the \<open>u\<close> flag are the functions below.

  The code units above U+00FF are not in the model. JavaScript has further whitespace
  there, and \<open>toLowerCase\<close> sends some of them into ASCII (U+212A KELVIN SIGN to \<open>k\<close>), so
  that lowercasing may turn a character that is not of \<open>\w\<close> into one that is. The
  statements about every title are therefore about what a step receives and what it
  returns; none of them says that a character outside ASCII never reaches the slug.
\<close>

definition isWhitespace :: "char \<Rightarrow> bool" where
  \<comment> \<open>\<open>\s\<close>: TAB, LF, VT, FF, CR, SPACE and NO-BREAK SPACE (U+00A0)\<close>
  "isWhitespace c = (of_char c \<in> {9, 10, 11, 12, 13, 32, 160 :: nat})"

definition isWord :: "char \<Rightarrow> bool" where
  \<comment> \<open>\<open>\w\<close> is \<open>[A-Za-z0-9_]\<close>\<close>
  "isWord c = (let n = of_char c :: nat in
     (48 \<le> n \<and> n \<le> 57) \<or> (65 \<le> n \<and> n \<le> 90) \<or> n = 95 \<or> (97 \<le> n \<and> n \<le> 122))"

definition isHyphen :: "char \<Rightarrow> bool" where
  "isHyphen c = (c = CHR ''-'')"

definition lowerChar :: "char \<Rightarrow> char" where
  \<comment> \<open>A-Z and the capital letters U+00C0 .. U+00DE (but the sign U+00D7) move up by 32\<close>
  "lowerChar c = (let n = of_char c :: nat in
     if (65 \<le> n \<and> n \<le> 90) \<or> (192 \<le> n \<and> n \<le> 222 \<and> n \<noteq> 215)
     then char_of (n + 32) else c)"

definition toLowerCase :: "string \<Rightarrow> string" where
  "toLowerCase s = map lowerChar s"

definition trim :: "string \<Rightarrow> string" where
  "trim s = rev (dropWhile isWhitespace (rev (dropWhile isWhitespace s)))"

section \<open>Slug derivation\<close>

text \<open>
  The chain of the pre-save hook, as the tests of the Event model hold it
  (database/__tests__/event.model.test.ts, lines 211 to 217, and again in each test of
  the slug):
  \<^verbatim>\<open>title.toLowerCase().trim().replace(/[^\w\s-]/g, '').replace(/\s+/g, '-')
       .replace(/-+/g, '-').replace(/^-+|-+$/g, '')\<close>
\<close>

definition removeSpecial :: "string \<Rightarrow> string" where
  \<comment> \<open>\<open>.replace(/[^\w\s-]/g, '')\<close>\<close>
  "removeSpecial s = filter (\<lambda>c. isWord c \<or> isWhitespace c \<or> isHyphen c) s"

function replaceRuns :: "(char \<Rightarrow> bool) \<Rightarrow> string \<Rightarrow> string" where
  \<comment> \<open>\<open>.replace(/X+/g, '-')\<close>: every maximal run of characters of the class becomes one hyphen\<close>
  "replaceRuns p [] = []"
| "replaceRuns p (c # cs) =
     (if p c then CHR ''-'' # replaceRuns p (dropWhile p cs) else c # replaceRuns p cs)"
  by pat_completeness auto
termination
  by (relation "measure (\<lambda>(p, s). length s)") (auto simp: length_dropWhile_le less_Suc_eq_le)

definition stripHyphens :: "string \<Rightarrow> string" where
  \<comment> \<open>\<open>.replace(/^-+|-+$/g, '')\<close>\<close>
  "stripHyphens s = rev (dropWhile isHyphen (rev (dropWhile isHyphen s)))"

definition slugify :: "string \<Rightarrow> string" where
  "slugify title =
     stripHyphens (replaceRuns isHyphen (replaceRuns isWhitespace
       (removeSpecial (trim (toLowerCase title)))))"

text \<open>
  Two hyphens side by side, the shape that the fifth step leaves nowhere in a slug.
\<close>

fun doubleHyphen :: "string \<Rightarrow> bool" where
  "doubleHyphen (a # b # s) = ((a = CHR ''-'' \<and> b = CHR ''-'') \<or> doubleHyphen (b # s))"
| "doubleHyphen s = False"

section \<open>Regular expressions\<close>

text \<open>
  The two patterns of the repository are anchored at both ends (\<open>^ ... $\<close>, no flags), so
  \<open>regex.test(s)\<close> holds when the whole string is in the language of the pattern. A pattern
  is a term of \<open>rx\<close>; \<open>matches\<close> decides membership by derivatives, one character at a time.
\<close>

datatype rx = Zero | Eps | Atom "char \<Rightarrow> bool" | Alt rx rx | Seq rx rx | Star rx

definition Opt :: "rx \<Rightarrow> rx" where
  \<comment> \<open>\<open>r?\<close>\<close>
  "Opt r = Alt r Eps"

definition Plus :: "rx \<Rightarrow> rx" where
  \<comment> \<open>\<open>r+\<close>\<close>
  "Plus r = Seq r (Star r)"

definition Lit :: "char \<Rightarrow> rx" where
  "Lit a = Atom (\<lambda>c. c = a)"

definition digitIn :: "char \<Rightarrow> char \<Rightarrow> char \<Rightarrow> bool" where
  "digitIn a b c = ((of_char a :: nat) \<le> of_char c \<and> (of_char c :: nat) \<le> of_char b)"

definition Range :: "char \<Rightarrow> char \<Rightarrow> rx" where
  \<comment> \<open>\<open>[a-b]\<close>\<close>
  "Range a b = Atom (digitIn a b)"

primrec nullable :: "rx \<Rightarrow> bool" where
  "nullable Zero = False"
| "nullable Eps = True"
| "nullable (Atom p) = False"
| "nullable (Alt r s) = (nullable r \<or> nullable s)"
| "nullable (Seq r s) = (nullable r \<and> nullable s)"
| "nullable (Star r) = True"

primrec deriv :: "char \<Rightarrow> rx \<Rightarrow> rx" where
  "deriv c Zero = Zero"
| "deriv c Eps = Zero"
| "deriv c (Atom p) = (if p c then Eps else Zero)"
| "deriv c (Alt r s) = Alt (deriv c r) (deriv c s)"
| "deriv c (Seq r s) =
     (if nullable r then Alt (Seq (deriv c r) s) (deriv c s) else Seq (deriv c r) s)"
| "deriv c (Star r) = Seq (deriv c r) (Star r)"

primrec matches :: "rx \<Rightarrow> string \<Rightarrow> bool" where
  "matches r [] = nullable r"
| "matches r (c # cs) = matches (deriv c r) cs"

text \<open>The language of a pattern, against which the matcher is verified.\<close>

definition conc :: "string set \<Rightarrow> string set \<Rightarrow> string set" where
  "conc A B = {u @ v | u v. u \<in> A \<and> v \<in> B}"

inductive_set star :: "string set \<Rightarrow> string set" for A :: "string set" where
  star_empty: "[] \<in> star A"
| star_step: "u \<in> A \<Longrightarrow> v \<in> star A \<Longrightarrow> u @ v \<in> star A"

primrec lang :: "rx \<Rightarrow> string set" where
  "lang Zero = {}"
| "lang Eps = {[]}"
| "lang (Atom p) = {[c] | c. p c}"
| "lang (Alt r s) = lang r \<union> lang s"
| "lang (Seq r s) = conc (lang r) (lang s)"
| "lang (Star r) = star (lang r)"

definition notSpaceAt :: "char \<Rightarrow> bool" where
  \<comment> \<open>\<open>[^\s@]\<close>\<close>
  "notSpaceAt c = (\<not> isWhitespace c \<and> c \<noteq> CHR ''@'')"

definition emailRegex :: rx where
  \<comment> \<open>\<open>/^[^\s@]+@[^\s@]+\.[^\s@]+$/\<close> (booking.model.ts)\<close>
  "emailRegex =
     Seq (Plus (Atom notSpaceAt)) (Seq (Lit (CHR ''@'')) (Seq (Plus (Atom notSpaceAt))
       (Seq (Lit (CHR ''.'')) (Plus (Atom notSpaceAt)))))"

definition timeRegex :: rx where
  \<comment> \<open>\<open>/^([0-1]?[0-9]|2[0-3]):[0-5][0-9]$/\<close> (event.model.test.ts, lines 392, 410 and 424)\<close>
  "timeRegex =
     Seq (Alt (Seq (Opt (Range (CHR ''0'') (CHR ''1''))) (Range (CHR ''0'') (CHR ''9'')))
              (Seq (Lit (CHR ''2'')) (Range (CHR ''0'') (CHR ''3''))))
         (Seq (Lit (CHR '':'')) (Seq (Range (CHR ''0'') (CHR ''5'')) (Range (CHR ''0'') (CHR ''9''))))"

definition timeValid :: "string \<Rightarrow> bool" where
  \<comment> \<open>\<open>timeRegex.test(time)\<close>\<close>
  "timeValid s = matches timeRegex s"

text \<open>The shapes of a time string, for comparison with the pattern.\<close>

definition run :: "(char \<Rightarrow> bool) \<Rightarrow> string \<Rightarrow> bool" where
  \<comment> \<open>a non-empty string of characters of one class\<close>
  "run p s = (s \<noteq> [] \<and> list_all p s)"

definition minutesShape :: "char \<Rightarrow> char \<Rightarrow> char \<Rightarrow> bool" where
  "minutesShape k m1 m2 =
     (k = CHR '':'' \<and> digitIn (CHR ''0'') (CHR ''5'') m1 \<and> digitIn (CHR ''0'') (CHR ''9'') m2)"

definition twoDigitTime :: "string \<Rightarrow> bool" where
  \<comment> \<open>\<open>HH:MM\<close> on the 24-hour clock, two digits each\<close>
  "twoDigitTime s = (case s of
     [h1, h2, k, m1, m2] \<Rightarrow>
       ((digitIn (CHR ''0'') (CHR ''1'') h1 \<and> digitIn (CHR ''0'') (CHR ''9'') h2) \<or>
        (h1 = CHR ''2'' \<and> digitIn (CHR ''0'') (CHR ''3'') h2)) \<and> minutesShape k m1 m2
   | _ \<Rightarrow> False)"

definition oneDigitHourTime :: "string \<Rightarrow> bool" where
  \<comment> \<open>\<open>H:MM\<close>\<close>
  "oneDigitHourTime s = (case s of
     [h, k, m1, m2] \<Rightarrow> digitIn (CHR ''0'') (CHR ''9'') h \<and> minutesShape k m1 m2
   | _ \<Rightarrow> False)"

section \<open>Validation errors and the document store\<close>

text \<open>
  The errors of the validators, named as the specification's taxonomy names them and carrying
  the field. The messages of the source are: \<open>Event ID is required\<close> and \<open>Email is required\<close>
  (\<open>MissingField\<close>), \<open>Invalid email format\<close> (\<open>InvalidFormat\<close>),
  \<open>Referenced event does not exist\<close> (\<open>DanglingReference\<close>).
\<close>

datatype error =
    MissingField string
  | InvalidFormat string
  | InvalidEnum string "string list"
  | EmptyCollection string
  | DanglingReference string
  | UniqueConstraintViolation string

type_synonym objectId = nat

record event_rec =
  ev_id :: objectId
  ev_title :: string
  ev_slug :: string

definition findById :: "event_rec list \<Rightarrow> objectId option \<Rightarrow> event_rec option" where
  \<comment> \<open>\<open>Event.findById(id)\<close>: \<open>null\<close> when no record has that identity\<close>
  "findById store oid =
     (case oid of None \<Rightarrow> None | Some i \<Rightarrow> find (\<lambda>e. ev_id e = i) store)"

definition slugTaken :: "event_rec list \<Rightarrow> string \<Rightarrow> bool" where
  \<comment> \<open>\<open>findOne(Event, {slug})\<close> finds a record\<close>
  "slugTaken store s = (s \<in> set (map ev_slug store))"

section \<open>Booking model (booking.model.ts)\<close>

text \<open>
  A Booking document holds the two schema paths and the paths modified since it was
  created or loaded. The schema options of \<open>email\<close> are the setters \<open>lowercase\<close> and \<open>trim\<close>,
  run when the path is assigned, the \<open>required\<close> validator and the pattern validator.
  Mongoose reports one error for a path, the one of its first failing validator, with
  \<open>required\<close> first; it runs the other validators on a value that is present only.
\<close>

record booking =
  eventId :: "objectId option"
  email :: "string option"
  modifiedPaths :: "string list"

definition emailSetter :: "string \<Rightarrow> string" where
  \<comment> \<open>\<open>lowercase: true, trim: true\<close>\<close>
  "emailSetter v = trim (toLowerCase v)"

definition emailValidator :: "string \<Rightarrow> bool" where
  \<comment> \<open>\<open>validator: (v) => emailRegex.test(v)\<close>\<close>
  "emailValidator v = matches emailRegex v"

definition newBooking :: "objectId option \<Rightarrow> string option \<Rightarrow> booking" where
  \<comment> \<open>\<open>new Booking({eventId, email})\<close>: every path that is given is set, hence modified\<close>
  "newBooking oid em =
     \<lparr>eventId = oid, email = map_option emailSetter em,
      modifiedPaths = (if oid = None then [] else [''eventId'']) @
                      (if em = None then [] else [''email''])\<rparr>"

definition loadBooking :: "objectId \<Rightarrow> string \<Rightarrow> booking" where
  \<comment> \<open>a document read from the store: no path is modified\<close>
  "loadBooking oid em = \<lparr>eventId = Some oid, email = Some em, modifiedPaths = []\<rparr>"

definition setEventId :: "booking \<Rightarrow> objectId \<Rightarrow> booking" where
  \<comment> \<open>\<open>doc.eventId = oid\<close>: the path is modified when the value changes\<close>
  "setEventId doc oid =
     (if eventId doc = Some oid then doc
      else doc\<lparr>eventId := Some oid, modifiedPaths := ''eventId'' # modifiedPaths doc\<rparr>)"

definition setEmail :: "booking \<Rightarrow> string \<Rightarrow> booking" where
  \<comment> \<open>\<open>doc.email = v\<close>\<close>
  "setEmail doc v =
     (if email doc = Some (emailSetter v) then doc
      else doc\<lparr>email := Some (emailSetter v), modifiedPaths := ''email'' # modifiedPaths doc\<rparr>)"

definition isModified :: "booking \<Rightarrow> string \<Rightarrow> bool" where
  "isModified doc path = (path \<in> set (modifiedPaths doc))"

definition validateEventId :: "objectId option \<Rightarrow> error list" where
  \<comment> \<open>\<open>required: [true, 'Event ID is required']\<close>\<close>
  "validateEventId v = (case v of None \<Rightarrow> [MissingField ''eventId''] | Some i \<Rightarrow> [])"

definition validateEmail :: "string option \<Rightarrow> error list" where
  \<comment> \<open>\<open>required: [true, 'Email is required']\<close>, then \<open>validate\<close> with \<open>'Invalid email format'\<close>\<close>
  "validateEmail v =
     (case v of
        None \<Rightarrow> [MissingField ''email'']
      | Some s \<Rightarrow>
          if s = [] then [MissingField ''email'']
          else if emailValidator s then []
          else [InvalidFormat ''email''])"

definition validateBooking :: "booking \<Rightarrow> error list" where
  \<comment> \<open>schema validation: the errors of all paths\<close>
  "validateBooking doc = validateEventId (eventId doc) @ validateEmail (email doc)"

definition preSave :: "event_rec list \<Rightarrow> booking \<Rightarrow> (error + unit) \<times> nat" where
  \<comment> \<open>the pre-save hook; the second component counts the reads of the store\<close>
  "preSave store doc =
     (if isModified doc ''eventId'' then
        (case findById store (eventId doc) of
           None \<Rightarrow> (Inl (DanglingReference ''eventId''), 1)
         | Some e \<Rightarrow> (Inr (), 1))
      else (Inr (), 0))"

text \<open>
  A path of the object passed to \<open>new Booking(...)\<close> is absent, \<open>null\<close> or a value. Mongoose
  sets a path that is given as \<open>null\<close>, so that it is modified and holds no value; for the
  \<open>eventId\<close>, \<open>newBooking\<close> above is the creation with an absent or a given identity.
\<close>

datatype 'a given = Absent | Null | Given 'a

definition createBooking :: "objectId given \<Rightarrow> string option \<Rightarrow> booking" where
  \<comment> \<open>\<open>new Booking({eventId, email})\<close>\<close>
  "createBooking oid em =
     \<lparr>eventId = (case oid of Given i \<Rightarrow> Some i | _ \<Rightarrow> None),
      email = map_option emailSetter em,
      modifiedPaths = (if oid = Absent then [] else [''eventId'']) @
                      (if em = None then [] else [''email''])\<rparr>"

definition saveBooking :: "event_rec list \<Rightarrow> booking \<Rightarrow> (error list + booking) \<times> nat" where
  \<comment> \<open>\<open>doc.save()\<close> up to the write: schema validation, which Mongoose runs before the hooks
      of the schema, and then the pre-save hook; the second component counts the reads
      of the store\<close>
  "saveBooking store doc =
     (case validateBooking doc of
        [] \<Rightarrow>
          (case preSave store doc of
             (Inl e, n) \<Rightarrow> (Inl [e], n)
           | (Inr u, n) \<Rightarrow> (Inr doc, n))
      | e # es \<Rightarrow> (Inl (e # es), 0))"

section \<open>Event model\<close>

text \<open>
  The file of the Event model is not among the sources; its tests are. The slug chain and
  the time pattern above are taken from the tests, which replicate them. The checks of the
  fields, the collection validator and the uniqueness step below are modelled from the
  specification.
\<close>

datatype jsvalue = JUndefined | JNull | JStr string | JArr "string list"

record event_input =
  in_title :: string
  in_agenda :: jsvalue
  in_tags :: jsvalue

text \<open>
  Modelled from the spec: the validator of \<open>agenda\<close> and of \<open>tags\<close>, whose code is in the
  missing file of the Event model: "a non-empty ordered sequence of strings; empty, null, or
  non-sequence inputs fail". The tests call it on \<open>[]\<close>, \<open>['Item 1']\<close>, \<open>'not an array'\<close>,
  \<open>null\<close> and \<open>undefined\<close>.
\<close>

definition nonEmptyArray :: "jsvalue \<Rightarrow> bool" where
  "nonEmptyArray v = (case v of JArr xs \<Rightarrow> xs \<noteq> [] | _ \<Rightarrow> False)"

text \<open>
  Modelled from the spec: the collection check of one field in \<open>prepare\<close> of the Event
  validator (missing with the file of the Event model), failing with \<open>EmptyCollection\<close>.
\<close>

definition checkCollection :: "string \<Rightarrow> jsvalue \<Rightarrow> error list" where
  "checkCollection field v = (if nonEmptyArray v then [] else [EmptyCollection field])"

definition digitChar :: "nat \<Rightarrow> char" where
  "digitChar d = char_of (48 + d)"

function decimal :: "nat \<Rightarrow> string" where
  \<comment> \<open>the decimal digits of a number, as a template literal renders \<open>Date.now()\<close>\<close>
  "decimal n = (if n < 10 then [digitChar n] else decimal (n div 10) @ [digitChar (n mod 10)])"
  by pat_completeness auto
termination
  by (relation "measure (\<lambda>n. n)") auto

declare decimal.simps [simp del]

definition maxLength :: "string list \<Rightarrow> nat" where
  "maxLength xs = foldr (\<lambda>s m. max (length s) m) xs 0"

text \<open>
  Modelled from the spec: the uniqueness step of the Event validator (missing with the file
  of the Event model), "query the store for an existing record with the same slug; if
  found, append a disambiguating suffix (-<token>) where <token> is derived from current
  time, and recheck". \<open>taken\<close> are the slugs of the store and \<open>clock k\<close> is the \<open>k\<close>-th reading
  of the time; the suffix is the one of the tests, \<open>`${baseSlug}-${Date.now()}`\<close>.
\<close>

function uniqueSlug :: "string list \<Rightarrow> (nat \<Rightarrow> nat) \<Rightarrow> nat \<Rightarrow> string \<Rightarrow> string" where
  "uniqueSlug taken clock k slug =
     (if slug \<in> set taken
      then uniqueSlug taken clock (Suc k) (slug @ ''-'' @ decimal (clock k))
      else slug)"
  by pat_completeness auto
termination
proof (relation "measure (\<lambda>(taken, clock, k, slug). Suc (maxLength taken) - length slug)")
  show "wf (measure (\<lambda>(taken, clock, k, slug). Suc (maxLength taken) - length slug))"
    by simp
next
  fix taken :: "string list" and clock :: "nat \<Rightarrow> nat" and k :: nat and slug :: string
  assume "slug \<in> set taken"
  then have "length slug \<le> maxLength taken"
    unfolding maxLength_def by (induction taken) auto
  then show "((taken, clock, Suc k, slug @ ''-'' @ decimal (clock k)), (taken, clock, k, slug))
      \<in> measure (\<lambda>(taken, clock, k, slug). Suc (maxLength taken) - length slug)"
    by simp
qed

declare uniqueSlug.simps [simp del]

text \<open>
  Modelled from the spec: \<open>prepare\<close> of the Event validator (missing with the file of the
  Event model), in its collection checks, the trimming of the title and the slug. The
  violations are returned together, or else the record for the store.
\<close>

definition prepareEvent ::
  "event_rec list \<Rightarrow> (nat \<Rightarrow> nat) \<Rightarrow> objectId \<Rightarrow> event_input \<Rightarrow> error list + event_rec" where
  "prepareEvent store clock oid c =
     (case checkCollection ''agenda'' (in_agenda c) @ checkCollection ''tags'' (in_tags c) of
        [] \<Rightarrow> Inr \<lparr>ev_id = oid, ev_title = trim (in_title c),
                  ev_slug = uniqueSlug (map ev_slug store) clock 0 (slugify (in_title c))\<rparr>
      | e # es \<Rightarrow> Inl (e # es))"

text \<open>
  Modelled from the spec: \<open>insert\<close> of the document store, an external collaborator, with
  the unique index on the slug; and the persisting of a candidate, which validates it and
  hands the record to the store.
\<close>

definition insertEvent :: "event_rec list \<Rightarrow> event_rec \<Rightarrow> error + event_rec list" where
  "insertEvent store r =
     (if slugTaken store (ev_slug r) then Inl (UniqueConstraintViolation ''slug'')
      else Inr (store @ [r]))"

definition persistEvent ::
  "event_rec list \<Rightarrow> (nat \<Rightarrow> nat) \<Rightarrow> objectId \<Rightarrow> event_input \<Rightarrow> error list + event_rec list" where
  "persistEvent store clock oid c =
     (case prepareEvent store clock oid c of
        Inl es \<Rightarrow> Inl es
      | Inr r \<Rightarrow> (case insertEvent store r of Inl e \<Rightarrow> Inl [e] | Inr store' \<Rightarrow> Inr store'))"












text \<open>
  Modelled from the spec: the "Unicode word character" of the third step as the
  specification words it, on the code units of the model: the ASCII word characters and
  the letters of the Latin-1 supplement.
\<close>

definition isUnicodeWordChar :: "char \<Rightarrow> bool" where
  "isUnicodeWordChar c = (let n = of_char c :: nat in
     isWord c \<or> n = 170 \<or> n = 181 \<or> n = 186 \<or> (192 \<le> n \<and> n \<le> 255 \<and> n \<noteq> 215 \<and> n \<noteq> 247))"

section \<open>Connection manager (lib/mongodb.ts)\<close>

text \<open>
  Loading the module reads \<open>MONGODB_URI\<close> from the environment and throws when it is
  undefined or empty (\<open>!MONGODB_URI\<close>); otherwise the cache is the one of \<open>global.mongoose\<close>,
  or a new empty one, which is stored there.
\<close>

type_synonym handle = nat

datatype settled = Pending | Fulfilled handle | Rejected string

datatype outcome = Returned handle | Threw string

record cache =
  conn :: "handle option"
  promise :: "nat option"
  attempts :: "settled list"
  waiting :: "(nat \<times> nat) list"
  finished :: "(nat \<times> outcome) list"

record connection_module =
  uri :: string
  cached :: cache

definition emptyCache :: cache where
  \<comment> \<open>\<open>{ conn: null, promise: null }\<close>, before any call\<close>
  "emptyCache = \<lparr>conn = None, promise = None, attempts = [], waiting = [], finished = []\<rparr>"

definition missingUri :: string where
  "missingUri = ''Please define the MONGODB_URI environment variable inside .env.local''"

definition loadModule ::
  "(string \<Rightarrow> string option) \<Rightarrow> cache option \<Rightarrow> string + (connection_module \<times> cache option)" where
  \<comment> \<open>the module's top level: the thrown message, or the module and the new \<open>global.mongoose\<close>\<close>
  "loadModule env global =
     (case env ''MONGODB_URI'' of
        None \<Rightarrow> Inl missingUri
      | Some u \<Rightarrow>
          if u = [] then Inl missingUri
          else (let c = (case global of None \<Rightarrow> emptyCache | Some g \<Rightarrow> g)
                in Inr (\<lparr>uri = u, cached = c\<rparr>, Some c)))"

text \<open>
  \<open>connectDB\<close> is an async function: a call runs to its \<open>await\<close> and is suspended there,
  also when the awaited promise has settled already. The rest of the call (the assignment
  and the \<open>return\<close>, or the \<open>catch\<close> block) is a job of its own, which runs once the promise
  has settled; the jobs of the calls that await one promise run in the order of their
  \<open>await\<close>s. Between the settlement of an attempt and the job of a call that awaits it
  other jobs of the program may run, and they may call \<open>connectDB\<close>.

  The state holds the two fields of the cache and, to observe the calls, every promise
  that \<open>mongoose.connect\<close> has returned (\<open>attempts\<close>, a promise being its index there, which
  \<open>promise\<close> caches), the calls suspended at the \<open>await\<close> with the promise each awaits, and
  the calls that have returned or thrown. The events are a call of \<open>connectDB\<close> (with a
  number naming the call), the settlement of an attempt, and the job that resumes a
  suspended call.
\<close>

datatype event = Call nat | Resolve nat handle | Reject nat string | Resume nat

definition promiseState :: "cache \<Rightarrow> nat \<Rightarrow> settled" where
  "promiseState st p = (if p < length (attempts st) then attempts st ! p else Pending)"

definition resume :: "settled \<Rightarrow> cache \<Rightarrow> nat \<Rightarrow> cache" where
  \<comment> \<open>after the \<open>await\<close>: \<open>cached.conn = ...; return cached.conn\<close>, or the \<open>catch\<close> block\<close>
  "resume s st k =
     (case s of
        Pending \<Rightarrow> st
      | Fulfilled m \<Rightarrow> st\<lparr>conn := Some m, finished := finished st @ [(k, Returned m)]\<rparr>
      | Rejected e \<Rightarrow> st\<lparr>promise := None, finished := finished st @ [(k, Threw e)]\<rparr>)"

definition connectDB :: "cache \<Rightarrow> nat \<Rightarrow> cache" where
  \<comment> \<open>call \<open>k\<close> of \<open>connectDB()\<close>, up to its \<open>return\<close> or its \<open>await\<close>\<close>
  "connectDB st k =
     (case conn st of
        Some c \<Rightarrow> st\<lparr>finished := finished st @ [(k, Returned c)]\<rparr>
      | None \<Rightarrow>
          (case promise st of
             None \<Rightarrow>
               st\<lparr>attempts := attempts st @ [Pending],
                  promise := Some (length (attempts st)),
                  waiting := waiting st @ [(k, length (attempts st))]\<rparr>
           | Some p \<Rightarrow> st\<lparr>waiting := waiting st @ [(k, p)]\<rparr>))"

definition settle :: "cache \<Rightarrow> nat \<Rightarrow> settled \<Rightarrow> cache" where
  \<comment> \<open>attempt \<open>p\<close> settles (once); the calls awaiting it stay suspended until their jobs run\<close>
  "settle st p s =
     (if p < length (attempts st) \<and> attempts st ! p = Pending
      then st\<lparr>attempts := (attempts st)[p := s]\<rparr>
      else st)"

definition resumeCall :: "cache \<Rightarrow> nat \<Rightarrow> cache" where
  \<comment> \<open>the job of the suspended call \<open>k\<close>: it runs when the promise that \<open>k\<close> awaits has settled
      and no earlier call awaits the same promise\<close>
  "resumeCall st k =
     (case find (\<lambda>w. fst w = k) (waiting st) of
        None \<Rightarrow> st
      | Some w \<Rightarrow>
          if promiseState st (snd w) \<noteq> Pending \<and>
             find (\<lambda>v. snd v = snd w) (waiting st) = Some w
          then resume (promiseState st (snd w)) (st\<lparr>waiting := remove1 w (waiting st)\<rparr>) k
          else st)"

fun step :: "cache \<Rightarrow> event \<Rightarrow> cache" where
  "step st (Call k) = connectDB st k"
| "step st (Resolve p m) = settle st p (Fulfilled m)"
| "step st (Reject p e) = settle st p (Rejected e)"
| "step st (Resume k) = resumeCall st k"

definition runEvents :: "cache \<Rightarrow> event list \<Rightarrow> cache" where
  "runEvents st evs = foldl step st evs"

definition pendingAttempts :: "cache \<Rightarrow> nat list" where
  \<comment> \<open>the attempts in flight\<close>
  "pendingAttempts st = filter (\<lambda>p. attempts st ! p = Pending) [0 ..< length (attempts st)]"

section \<open>Properties of the slug derivation\<close>

lemmas slug_eval =
  slugify_def stripHyphens_def removeSpecial_def trim_def toLowerCase_def lowerChar_def
  isWord_def isWhitespace_def isHyphen_def char_of_eq_iff

lemma of_char_lower:
  "(of_char (lowerChar c) :: nat) =
     (let n = of_char c in
      if (65 \<le> n \<and> n \<le> 90) \<or> (192 \<le> n \<and> n \<le> 222 \<and> n \<noteq> 215) then n + 32 else n)"
  by (simp add: lowerChar_def Let_def)

lemma isWord_lower: "isWord c \<Longrightarrow> isWord (lowerChar c)"
  unfolding isWord_def of_char_lower Let_def by auto

lemma isWhitespace_lowerChar: "isWhitespace (lowerChar c) = isWhitespace c"
  unfolding isWhitespace_def of_char_lower Let_def by auto

lemma isHyphen_iff: "isHyphen c = (of_char c = (45::nat))"
  unfolding isHyphen_def by (simp flip: of_char_eq_iff [where ?'a = nat])

lemma not_word_whitespace: "isWhitespace c \<Longrightarrow> \<not> isWord c"
  unfolding isWord_def isWhitespace_def Let_def by auto

lemma not_word_hyphen: "isHyphen c \<Longrightarrow> \<not> isWord c"
  unfolding isWord_def isHyphen_iff Let_def by auto

lemma filter_dropWhile_other:
  "(\<And>c. p c \<Longrightarrow> \<not> q c) \<Longrightarrow> filter q (dropWhile p s) = filter q s"
  by (induction s) auto

lemma filter_strip_other:
  assumes "\<And>c. p c \<Longrightarrow> \<not> q c"
  shows "filter q (rev (dropWhile p (rev (dropWhile p s)))) = filter q s"
proof -
  have "filter q (rev (dropWhile p (rev (dropWhile p s)))) = rev (filter q (dropWhile p (rev (dropWhile p s))))"
    by (simp add: rev_filter)
  also have "\<dots> = rev (filter q (rev (dropWhile p s)))"
    using assms by (simp add: filter_dropWhile_other)
  also have "\<dots> = filter q (dropWhile p s)"
    by (simp add: rev_filter)
  also have "\<dots> = filter q s"
    using assms by (simp add: filter_dropWhile_other)
  finally show ?thesis .
qed

lemma filter_replaceRuns_other:
  "(\<And>c. p c \<Longrightarrow> \<not> q c) \<Longrightarrow> \<not> q (CHR ''-'') \<Longrightarrow> filter q (replaceRuns p s) = filter q s"
proof (induction p s rule: replaceRuns.induct)
  case (1 p)
  then show ?case by simp
next
  case (2 p c cs)
  show ?case
  proof (cases "p c")
    case True
    then have "filter q (replaceRuns p (c # cs)) = filter q (replaceRuns p (dropWhile p cs))"
      using 2(4) by simp
    also have "\<dots> = filter q (dropWhile p cs)"
      using 2(1) [OF True] 2(3,4) by blast
    also have "\<dots> = filter q cs"
      using 2(3) by (simp add: filter_dropWhile_other)
    finally show ?thesis using True 2(3) by simp
  next
    case False
    then show ?thesis using 2 by simp
  qed
qed

lemma set_replaceRuns: "set (replaceRuns p s) \<subseteq> insert (CHR ''-'') {c \<in> set s. \<not> p c}"
proof (induction p s rule: replaceRuns.induct)
  case (1 p)
  then show ?case by simp
next
  case (2 p c cs)
  show ?case
  proof (cases "p c")
    case True
    have "set (dropWhile p cs) \<subseteq> set cs" by (auto dest: set_dropWhileD)
    then show ?thesis using 2(1) [OF True] True by auto
  next
    case False
    then show ?thesis using 2(2) by auto
  qed
qed

lemma set_strip: "set (rev (dropWhile p (rev (dropWhile p s)))) \<subseteq> set s"
  by (auto dest!: set_dropWhileD)

lemma slugify_word_filter: "filter isWord (slugify t) = filter isWord (toLowerCase t)"
proof -
  have hy: "\<not> isWord (CHR ''-'')" by (simp add: isWord_def)
  have rs: "filter isWord (removeSpecial s) = filter isWord s" for s
    unfolding removeSpecial_def by (induction s) auto
  show ?thesis
    unfolding slugify_def stripHyphens_def trim_def
    by (simp add: filter_strip_other filter_replaceRuns_other not_word_whitespace not_word_hyphen hy rs)
qed

lemma slugify_keeps_word:
  assumes "c \<in> set t" "isWord c"
  shows "lowerChar c \<in> set (slugify t)"
proof -
  have "lowerChar c \<in> set (filter isWord (toLowerCase t))"
    using assms by (simp add: toLowerCase_def isWord_lower)
  then have "lowerChar c \<in> set (filter isWord (slugify t))"
    by (simp only: slugify_word_filter)
  then show ?thesis by simp
qed

lemma slugify_chars: "c \<in> set (slugify t) \<Longrightarrow> isWord c \<or> c = CHR ''-''"
proof -
  assume "c \<in> set (slugify t)"
  then have "c \<in> set (replaceRuns isHyphen (replaceRuns isWhitespace (removeSpecial (trim (toLowerCase t)))))"
    unfolding slugify_def stripHyphens_def using set_strip by fastforce
  then have "c = CHR ''-'' \<or> c \<in> set (replaceRuns isWhitespace (removeSpecial (trim (toLowerCase t))))"
    using set_replaceRuns [of isHyphen] by fastforce
  then have "c = CHR ''-'' \<or> (c \<in> set (removeSpecial (trim (toLowerCase t))) \<and> \<not> isWhitespace c)"
    using set_replaceRuns [of isWhitespace] by fastforce
  then show ?thesis
    by (auto simp: removeSpecial_def isHyphen_def)
qed

lemma slugify_no_whitespace: "c \<in> set (slugify t) \<Longrightarrow> \<not> isWhitespace c"
  using slugify_chars [of c t] not_word_whitespace [of c]
  by (auto simp: isWhitespace_def)

lemma doubleHyphen_other: "a \<noteq> CHR ''-'' \<Longrightarrow> doubleHyphen (a # r) = doubleHyphen r"
  by (cases r) auto

lemma doubleHyphen_hyphen:
  "doubleHyphen (CHR ''-'' # r) = ((r \<noteq> [] \<and> hd r = CHR ''-'') \<or> doubleHyphen r)"
  by (cases r) auto

lemma replaceRuns_no_double:
  "(\<And>c. p c \<longleftrightarrow> c = CHR ''-'') \<Longrightarrow> \<not> doubleHyphen (replaceRuns p s)"
proof (induction p s rule: replaceRuns.induct)
  case (1 p)
  then show ?case by simp
next
  case (2 p c cs)
  show ?case
  proof (cases "p c")
    case True
    have ih: "\<not> doubleHyphen (replaceRuns p (dropWhile p cs))"
      using 2(1) [OF True] 2(3) by blast
    have "replaceRuns p (dropWhile p cs) = [] \<or> hd (replaceRuns p (dropWhile p cs)) \<noteq> CHR ''-''"
    proof (cases "dropWhile p cs")
      case Nil
      then have "replaceRuns p (dropWhile p cs) = []"
        by (simp only: replaceRuns.simps)
      then show ?thesis by blast
    next
      case (Cons x d)
      then have "\<not> p x" using hd_dropWhile [of p cs] by auto
      then show ?thesis using Cons 2(3) by simp
    qed
    then show ?thesis
      using True ih by (auto simp: doubleHyphen_hyphen)
  next
    case False
    then have "c \<noteq> CHR ''-''" using 2(3) by blast
    then show ?thesis
      using False 2(2) [OF False] 2(3) by (simp add: doubleHyphen_other)
  qed
qed

lemma doubleHyphen_appendR: "doubleHyphen ys \<Longrightarrow> doubleHyphen (xs @ ys)"
proof (induction xs)
  case Nil
  then show ?case by simp
next
  case (Cons x xs)
  then have "doubleHyphen (xs @ ys)" by simp
  then show ?case by (cases "xs @ ys") auto
qed

lemma doubleHyphen_appendL: "doubleHyphen xs \<Longrightarrow> doubleHyphen (xs @ ys)"
  by (induction xs rule: doubleHyphen.induct) auto

lemma strip_middle:
  "\<exists>pre suf. s = pre @ rev (dropWhile p (rev (dropWhile p s))) @ suf"
proof -
  let ?d = "dropWhile p s"
  have "rev ?d = takeWhile p (rev ?d) @ dropWhile p (rev ?d)"
    by simp
  then have "?d = rev (dropWhile p (rev ?d)) @ rev (takeWhile p (rev ?d))"
    by (metis rev_append rev_rev_ident)
  moreover have "s = takeWhile p s @ ?d"
    by simp
  ultimately have "s = takeWhile p s @ rev (dropWhile p (rev ?d)) @ rev (takeWhile p (rev ?d))"
    by simp
  then show ?thesis by blast
qed

lemma strip_no_double:
  assumes "\<not> doubleHyphen s"
  shows "\<not> doubleHyphen (rev (dropWhile p (rev (dropWhile p s))))"
proof
  assume d: "doubleHyphen (rev (dropWhile p (rev (dropWhile p s))))"
  obtain pre suf where s: "s = pre @ rev (dropWhile p (rev (dropWhile p s))) @ suf"
    using strip_middle by blast
  have "doubleHyphen (pre @ rev (dropWhile p (rev (dropWhile p s))) @ suf)"
    by (intro doubleHyphen_appendR doubleHyphen_appendL d)
  then show False using assms s by simp
qed

lemma last_dropWhile_same: "dropWhile p xs \<noteq> [] \<Longrightarrow> last (dropWhile p xs) = last xs"
  by (metis last_appendR takeWhile_dropWhile_id)

lemma strip_ends:
  assumes "rev (dropWhile p (rev (dropWhile p s))) \<noteq> []"
  shows "\<not> p (hd (rev (dropWhile p (rev (dropWhile p s)))))"
    and "\<not> p (last (rev (dropWhile p (rev (dropWhile p s)))))"
proof -
  let ?d = "dropWhile p s"
  let ?e = "dropWhile p (rev ?d)"
  have e: "?e \<noteq> []" using assms by simp
  have d: "?d \<noteq> []"
  proof
    assume "?d = []"
    then have "?e = []" by (simp only: rev.simps dropWhile.simps)
    then show False using e by blast
  qed
  have "hd (rev ?e) = last ?e" using e by (simp add: hd_rev)
  also have "\<dots> = last (rev ?d)" using e by (rule last_dropWhile_same)
  also have "\<dots> = hd ?d" using d by (simp add: last_rev)
  finally have "hd (rev ?e) = hd ?d" .
  then show "\<not> p (hd (rev ?e))" using d hd_dropWhile [of p s] by simp
  have "last (rev ?e) = hd ?e" using e by (simp add: last_rev)
  then show "\<not> p (last (rev ?e))" using e hd_dropWhile [of p "rev ?d"] by simp
qed

lemma slugify_no_double: "\<not> doubleHyphen (slugify t)"
  unfolding slugify_def stripHyphens_def
  by (intro strip_no_double replaceRuns_no_double) (simp add: isHyphen_def)

lemma slugify_ends:
  assumes "slugify t \<noteq> []"
  shows "hd (slugify t) \<noteq> CHR ''-'' \<and> last (slugify t) \<noteq> CHR ''-''"
  using assms unfolding slugify_def stripHyphens_def
  using strip_ends [of isHyphen] by (simp add: isHyphen_def)

lemma slugify_all_removed:
  assumes "\<forall>c \<in> set (trim (toLowerCase t)). \<not> isWord c \<and> \<not> isWhitespace c \<and> \<not> isHyphen c"
  shows "slugify t = []"
proof -
  have "removeSpecial (trim (toLowerCase t)) = []"
    using assms by (auto simp: removeSpecial_def filter_empty_conv)
  then show ?thesis
    by (simp add: slugify_def stripHyphens_def)
qed

text \<open>
  C1. The chain maps \<open>AWS re:Invent 2025\<close> to \<open>aws-reinvent-2025\<close>, \<open>---Event Title---\<close> to
  \<open>event-title\<close> and \<open>!@#$%^&*()\<close> to the empty slug. Each step shows in a title of the
  tests: runs of spaces and runs of hyphens become one hyphen, and signs between the
  words leave one hyphen between them. For every title the slug holds no whitespace and
  no two hyphens side by side, and neither begins nor ends with a hyphen; and when the
  third step receives only characters that it removes (neither word characters, nor
  whitespace, nor hyphens), the slug is empty.
\<close>

theorem slugify_reference:
  "slugify ''AWS re:Invent 2025'' = ''aws-reinvent-2025'' \<and>
   slugify ''---Event Title---'' = ''event-title'' \<and>
   slugify ''!@#$%^&*()'' = '''' \<and>
   slugify ''Event   With   Spaces'' = ''event-with-spaces'' \<and>
   slugify ''Event---With---Hyphens'' = ''event-with-hyphens'' \<and>
   slugify ''Event @ 2025! #Tech $Conference'' = ''event-2025-tech-conference'' \<and>
   slugify ''  Hello,  World -- 2025!  '' = ''hello-world-2025'' \<and>
   (\<forall>title. (\<forall>c \<in> set (slugify title). \<not> isWhitespace c) \<and>
      \<not> doubleHyphen (slugify title) \<and>
      (slugify title \<noteq> '''' \<longrightarrow>
         hd (slugify title) \<noteq> CHR ''-'' \<and> last (slugify title) \<noteq> CHR ''-'')) \<and>
   (\<forall>title. (\<forall>c \<in> set (trim (toLowerCase title)).
         \<not> isWord c \<and> \<not> isWhitespace c \<and> \<not> isHyphen c)
      \<longrightarrow> slugify title = '''')"
proof -
  have "slugify ''AWS re:Invent 2025'' = ''aws-reinvent-2025''"
    by (simp add: slug_eval)
  moreover have "slugify ''---Event Title---'' = ''event-title''"
    by (simp add: slug_eval)
  moreover have "slugify ''!@#$%^&*()'' = ''''"
    by (simp add: slug_eval)
  moreover have "slugify ''Event   With   Spaces'' = ''event-with-spaces''"
    by (simp add: slug_eval)
  moreover have "slugify ''Event---With---Hyphens'' = ''event-with-hyphens''"
    by (simp add: slug_eval)
  moreover have "slugify ''Event @ 2025! #Tech $Conference'' = ''event-2025-tech-conference''"
    by (simp add: slug_eval)
  moreover have "slugify ''  Hello,  World -- 2025!  '' = ''hello-world-2025''"
    by (simp add: slug_eval)
  moreover have "(\<forall>c \<in> set (slugify title). \<not> isWhitespace c) \<and>
      \<not> doubleHyphen (slugify title) \<and>
      (slugify title \<noteq> '''' \<longrightarrow>
         hd (slugify title) \<noteq> CHR ''-'' \<and> last (slugify title) \<noteq> CHR ''-'')" for title
    using slugify_no_whitespace [of _ title] slugify_no_double [of title] slugify_ends [of title]
    by blast
  moreover have "(\<forall>c \<in> set (trim (toLowerCase title)).
         \<not> isWord c \<and> \<not> isWhitespace c \<and> \<not> isHyphen c)
      \<longrightarrow> slugify title = ''''" for title
    using slugify_all_removed [of title] by blast
  ultimately show ?thesis
    by blast
qed

theorem slugify_reference_witness:
  "list_all (\<lambda>c. \<not> isWord c \<and> \<not> isWhitespace c \<and> \<not> isHyphen c) (trim (toLowerCase ''?!.:'')) \<and>
   slugify ''?!.:'' = '''' \<and>
   slugify ''- A  b -'' = ''a-b'' \<and>
   list_all (\<lambda>c. \<not> isWhitespace c) (slugify ''- A  b -'') \<and>
   \<not> doubleHyphen (slugify ''- A  b -'') \<and>
   hd (slugify ''- A  b -'') \<noteq> CHR ''-'' \<and> last (slugify ''- A  b -'') \<noteq> CHR ''-''"
proof -
  have t: "trim (toLowerCase ''?!.:'') = ''?!.:''"
    by (simp add: slug_eval)
  have h: "\<forall>c \<in> set (trim (toLowerCase ''?!.:'')). \<not> isWord c \<and> \<not> isWhitespace c \<and> \<not> isHyphen c"
    unfolding t by (simp add: isWord_def isWhitespace_def isHyphen_def)
  have e: "slugify ''?!.:'' = ''''"
    using h slugify_reference by blast
  have s: "slugify ''- A  b -'' = ''a-b''"
    by (simp add: slug_eval)
  then have n: "slugify ''- A  b -'' \<noteq> ''''"
    by simp
  have "(\<forall>c \<in> set (slugify ''- A  b -''). \<not> isWhitespace c) \<and>
      \<not> doubleHyphen (slugify ''- A  b -'') \<and>
      hd (slugify ''- A  b -'') \<noteq> CHR ''-'' \<and> last (slugify ''- A  b -'') \<noteq> CHR ''-''"
    using n slugify_reference by blast
  then show ?thesis
    using h e s by (simp add: list_all_iff)
qed

section \<open>The matcher decides the language of a pattern\<close>

lemmas rx_eval =
  emailRegex_def timeRegex_def timeValid_def Opt_def Plus_def Lit_def Range_def digitIn_def
  notSpaceAt_def isWhitespace_def

lemma nullable_lang: "nullable r \<longleftrightarrow> [] \<in> lang r"
  by (induction r) (auto simp: conc_def intro: star.star_empty)

lemma conc_Cons:
  "c # w \<in> conc A B \<longleftrightarrow>
     (\<exists>u v. w = u @ v \<and> c # u \<in> A \<and> v \<in> B) \<or> ([] \<in> A \<and> c # w \<in> B)"
proof
  assume "c # w \<in> conc A B"
  then obtain u v where uv: "c # w = u @ v" "u \<in> A" "v \<in> B"
    by (auto simp: conc_def)
  show "(\<exists>u v. w = u @ v \<and> c # u \<in> A \<and> v \<in> B) \<or> ([] \<in> A \<and> c # w \<in> B)"
  proof (cases u)
    case Nil
    then show ?thesis using uv by simp
  next
    case (Cons a u')
    then have "w = u' @ v" "c # u' \<in> A" using uv by auto
    then show ?thesis using uv(3) by blast
  qed
next
  assume "(\<exists>u v. w = u @ v \<and> c # u \<in> A \<and> v \<in> B) \<or> ([] \<in> A \<and> c # w \<in> B)"
  then show "c # w \<in> conc A B"
  proof
    assume "\<exists>u v. w = u @ v \<and> c # u \<in> A \<and> v \<in> B"
    then obtain u v where "w = u @ v" "c # u \<in> A" "v \<in> B" by blast
    then have "c # w = (c # u) @ v" by simp
    then show ?thesis unfolding conc_def using \<open>c # u \<in> A\<close> \<open>v \<in> B\<close> by blast
  next
    assume "[] \<in> A \<and> c # w \<in> B"
    then have "c # w = [] @ (c # w)" "[] \<in> A" "c # w \<in> B" by auto
    then show ?thesis unfolding conc_def by blast
  qed
qed

lemma star_Cons_split:
  "x \<in> star A \<Longrightarrow> x = c # w \<Longrightarrow> \<exists>u v. w = u @ v \<and> c # u \<in> A \<and> v \<in> star A"
proof (induction arbitrary: c w rule: star.induct)
  case star_empty
  then show ?case by simp
next
  case (star_step u v)
  show ?case
  proof (cases u)
    case Nil
    then show ?thesis using star_step by simp
  next
    case (Cons a u')
    then have "w = u' @ v" "c # u' \<in> A" using star_step.prems star_step.hyps(1) by auto
    then show ?thesis using star_step.hyps(2) by blast
  qed
qed

lemma star_Cons:
  "c # w \<in> star A \<longleftrightarrow> (\<exists>u v. w = u @ v \<and> c # u \<in> A \<and> v \<in> star A)"
proof
  assume "c # w \<in> star A"
  then show "\<exists>u v. w = u @ v \<and> c # u \<in> A \<and> v \<in> star A"
    using star_Cons_split by blast
next
  assume "\<exists>u v. w = u @ v \<and> c # u \<in> A \<and> v \<in> star A"
  then obtain u v where "w = u @ v" "c # u \<in> A" "v \<in> star A" by blast
  then show "c # w \<in> star A"
    using star.star_step [of "c # u" A v] by simp
qed

lemma deriv_lang: "w \<in> lang (deriv c r) \<longleftrightarrow> c # w \<in> lang r"
proof (induction r arbitrary: w)
  case (Seq r s)
  then show ?case
    by (auto simp: conc_Cons nullable_lang) (auto simp: conc_def)
next
  case (Star r)
  then show ?case
    by (auto simp: star_Cons) (auto simp: conc_def)
qed auto

lemma matches_lang: "matches r s \<longleftrightarrow> s \<in> lang r"
  by (induction s arbitrary: r) (simp_all add: nullable_lang deriv_lang)

lemma concI: "u \<in> A \<Longrightarrow> v \<in> B \<Longrightarrow> u @ v \<in> conc A B"
  unfolding conc_def by blast

lemma in_conc: "s \<in> conc A B \<longleftrightarrow> (\<exists>u v. s = u @ v \<and> u \<in> A \<and> v \<in> B)"
  by (auto simp: conc_def)

lemma star_atoms: "s \<in> star {[c] | c. p c} \<longleftrightarrow> (\<forall>c \<in> set s. p c)"
proof
  assume "s \<in> star {[c] | c. p c}"
  then show "\<forall>c \<in> set s. p c"
    by (induction rule: star.induct) auto
next
  assume "\<forall>c \<in> set s. p c"
  then show "s \<in> star {[c] | c. p c}"
  proof (induction s)
    case Nil
    then show ?case by (simp add: star.star_empty)
  next
    case (Cons a s)
    then have "[a] \<in> {[c] | c. p c}" "s \<in> star {[c] | c. p c}" by auto
    then have "[a] @ s \<in> star {[c] | c. p c}" by (rule star.star_step)
    then show ?case by simp
  qed
qed

lemma lang_Plus_Atom: "s \<in> lang (Plus (Atom p)) \<longleftrightarrow> run p s"
proof
  assume "s \<in> lang (Plus (Atom p))"
  then show "run p s"
    by (auto simp: Plus_def conc_def star_atoms run_def list_all_iff)
next
  assume "run p s"
  then obtain c v where s: "s = [c] @ v" and p: "p c" "\<forall>x \<in> set v. p x"
    by (cases s) (auto simp: run_def list_all_iff)
  have "[c] \<in> lang (Atom p)" using p by simp
  moreover have "v \<in> lang (Star (Atom p))" using p by (simp add: star_atoms)
  ultimately show "s \<in> lang (Plus (Atom p))"
    unfolding s Plus_def lang.simps(5) by (rule concI)
qed

lemma lang_Lit: "s \<in> lang (Lit a) \<longleftrightarrow> s = [a]"
  by (auto simp: Lit_def)

lemma lang_Range: "s \<in> lang (Range a b) \<longleftrightarrow> (\<exists>c. s = [c] \<and> digitIn a b c)"
  by (auto simp: Range_def)

lemma lang_Opt: "s \<in> lang (Opt r) \<longleftrightarrow> s = [] \<or> s \<in> lang r"
  by (auto simp: Opt_def)

subsection \<open>The time pattern\<close>

lemma timeRegex_lang_shape:
  "s \<in> lang timeRegex \<longleftrightarrow> twoDigitTime s \<or> oneDigitHourTime s"
proof
  assume "s \<in> lang timeRegex"
  then show "twoDigitTime s \<or> oneDigitHourTime s"
    unfolding timeRegex_def lang.simps(4,5) in_conc Un_iff lang_Range lang_Lit lang_Opt
    by (auto simp: twoDigitTime_def oneDigitHourTime_def minutesShape_def)
next
  assume "twoDigitTime s \<or> oneDigitHourTime s"
  then show "s \<in> lang timeRegex"
  proof
    assume "twoDigitTime s"
    then obtain h1 h2 m1 m2 where s: "s = [h1, h2, CHR '':'', m1, m2]"
      and h: "(digitIn (CHR ''0'') (CHR ''1'') h1 \<and> digitIn (CHR ''0'') (CHR ''9'') h2) \<or>
        (h1 = CHR ''2'' \<and> digitIn (CHR ''0'') (CHR ''3'') h2)"
      and m: "digitIn (CHR ''0'') (CHR ''5'') m1" "digitIn (CHR ''0'') (CHR ''9'') m2"
      by (auto simp: twoDigitTime_def minutesShape_def split: list.splits)
    have "s = [h1, h2] @ [CHR '':''] @ [m1] @ [m2]" by (simp add: s)
    moreover have "[h1, h2] = [h1] @ [h2]" by simp
    ultimately show ?thesis
      unfolding timeRegex_def lang.simps(4,5) in_conc Un_iff lang_Range lang_Lit lang_Opt
      using h m by (metis append_Cons append_Nil)
  next
    assume "oneDigitHourTime s"
    then obtain h m1 m2 where s: "s = [h, CHR '':'', m1, m2]"
      and h: "digitIn (CHR ''0'') (CHR ''9'') h"
      and m: "digitIn (CHR ''0'') (CHR ''5'') m1" "digitIn (CHR ''0'') (CHR ''9'') m2"
      by (auto simp: oneDigitHourTime_def minutesShape_def split: list.splits)
    have "s = ([] @ [h]) @ [CHR '':''] @ [m1] @ [m2]" by (simp add: s)
    then show ?thesis
      unfolding timeRegex_def lang.simps(4,5) in_conc Un_iff lang_Range lang_Lit lang_Opt
      using h m by blast
  qed
qed

lemma twoDigitTime_valid: "twoDigitTime s \<Longrightarrow> timeValid s"
  by (simp add: timeValid_def matches_lang timeRegex_lang_shape)

text \<open>
  C8. The time pattern rejects \<open>24:00\<close> and accepts \<open>23:59\<close> and \<open>00:00\<close>.
\<close>

theorem time_boundaries:
  "\<not> timeValid ''24:00'' \<and> timeValid ''23:59'' \<and> timeValid ''00:00''"
  by (simp add: rx_eval)

text \<open>
  C10. The strings that the time validation accepts are the language of the pattern
  \<open>^([0-1]?[0-9]|2[0-3]):[0-5][0-9]$\<close>: the two-digit times \<open>HH:MM\<close> of the 24-hour clock
  and, besides them, the times with an hour of one digit such as \<open>8:45\<close>. The minutes have
  two digits: \<open>9:0\<close> is rejected.
\<close>

theorem timeRegex_accepts:
  "{s. timeValid s} = lang timeRegex \<and>
   (\<forall>s. timeValid s \<longleftrightarrow> twoDigitTime s \<or> oneDigitHourTime s) \<and>
   (\<forall>s. twoDigitTime s \<longrightarrow> timeValid s) \<and>
   timeValid ''8:45'' \<and> \<not> twoDigitTime ''8:45'' \<and> \<not> timeValid ''9:0''"
proof -
  have "{s. timeValid s} = lang timeRegex"
    by (auto simp: timeValid_def matches_lang)
  moreover have "\<forall>s. timeValid s \<longleftrightarrow> twoDigitTime s \<or> oneDigitHourTime s"
    by (simp add: timeValid_def matches_lang timeRegex_lang_shape)
  moreover have "timeValid ''8:45''" "\<not> timeValid ''9:0''"
    by (simp_all add: rx_eval)
  moreover have "\<not> twoDigitTime ''8:45''"
    by (simp add: twoDigitTime_def)
  ultimately show ?thesis
    using twoDigitTime_valid by blast
qed

theorem timeRegex_accepts_witness:
  "twoDigitTime ''12:30'' \<and> timeValid ''12:30'' \<and> oneDigitHourTime ''8:45'' \<and> timeValid ''8:45''"
proof -
  have a: "twoDigitTime ''12:30''"
    by (simp add: twoDigitTime_def minutesShape_def digitIn_def)
  have b: "oneDigitHourTime ''8:45''"
    by (simp add: oneDigitHourTime_def minutesShape_def digitIn_def)
  show ?thesis
    using a b timeRegex_accepts by blast
qed

text \<open>
  C5 (as the claim states it, refuted). The third step keeps the characters of \<open>\w\<close>, which
  are the ASCII letters, the digits and the underscore. The letter U+00E9 of the title
  of the tests is a Unicode word character, the third step removes it, and the slug
  does not hold it.
\<close>

theorem accented_letter_removed:
  "isUnicodeWordChar (CHR 0xE9) \<and>
   CHR 0xE9 \<in> set (CHR 0xC9 # ''v'' @ CHR 0xE9 # ''nement Sp'' @ CHR 0xE9 # ''cial 2025'') \<and>
   removeSpecial [CHR 0xE9] = [] \<and>
   slugify (CHR 0xC9 # ''v'' @ CHR 0xE9 # ''nement Sp'' @ CHR 0xE9 # ''cial 2025'')
     = ''vnement-spcial-2025'' \<and>
   lowerChar (CHR 0xE9) \<notin>
     set (slugify (CHR 0xC9 # ''v'' @ CHR 0xE9 # ''nement Sp'' @ CHR 0xE9 # ''cial 2025''))"
proof -
  have s: "slugify (CHR 0xC9 # ''v'' @ CHR 0xE9 # ''nement Sp'' @ CHR 0xE9 # ''cial 2025'')
     = ''vnement-spcial-2025''"
    by (simp add: slug_eval)
  have "lowerChar (CHR 0xE9) = CHR 0xE9"
    by (simp add: lowerChar_def)
  then have "lowerChar (CHR 0xE9) \<notin> set ''vnement-spcial-2025''"
    by simp
  moreover have "isUnicodeWordChar (CHR 0xE9)"
    by (simp add: isUnicodeWordChar_def)
  moreover have "removeSpecial [CHR 0xE9] = []"
    by (simp add: removeSpecial_def isWord_def isWhitespace_def isHyphen_def)
  ultimately show ?thesis
    using s by simp
qed

text \<open>
  C5 (amended). The third step removes exactly the characters that are not ASCII word
  characters (\<open>[A-Za-z0-9_]\<close>), whitespace or hyphens. Every ASCII word character of the
  title is in the slug, lowercased: the word characters of the slug are those of the
  lowercased title, each of them and in the same order.
\<close>

theorem slugify_keeps_ascii_word_chars:
  "(c \<in> set (removeSpecial s) \<longleftrightarrow> c \<in> set s \<and> (isWord c \<or> isWhitespace c \<or> isHyphen c)) \<and>
   (\<forall>x \<in> set title. isWord x \<longrightarrow> lowerChar x \<in> set (slugify title)) \<and>
   filter isWord (slugify title) = filter isWord (toLowerCase title)"
proof -
  have "c \<in> set (removeSpecial s) \<longleftrightarrow> c \<in> set s \<and> (isWord c \<or> isWhitespace c \<or> isHyphen c)"
    by (simp add: removeSpecial_def)
  then show ?thesis
    using slugify_keeps_word [of _ title] slugify_word_filter [of title]
    by blast
qed

theorem slugify_keeps_ascii_word_chars_witness:
  "CHR ''A'' \<in> set ''AWS re:Invent 2025'' \<and> isWord (CHR ''A'') \<and>
   CHR ''a'' \<in> set (slugify ''AWS re:Invent 2025'') \<and>
   filter isWord (slugify ''AWS re:Invent 2025'') = ''awsreinvent2025'' \<and>
   CHR ''!'' \<notin> set (removeSpecial ''a!'')"
proof -
  have w: "filter isWord (toLowerCase ''AWS re:Invent 2025'') = ''awsreinvent2025''"
    by (simp add: toLowerCase_def isWord_def lowerChar_def char_of_eq_iff)
  have a: "CHR ''A'' \<in> set ''AWS re:Invent 2025''" "isWord (CHR ''A'')"
    by (simp_all add: isWord_def)
  have l: "lowerChar (CHR ''A'') = CHR ''a''"
    by (simp add: lowerChar_def char_of_eq_iff)
  have n: "\<not> (isWord (CHR ''!'') \<or> isWhitespace (CHR ''!'') \<or> isHyphen (CHR ''!''))"
    by (simp add: isWord_def isWhitespace_def isHyphen_def)
  have "lowerChar (CHR ''A'') \<in> set (slugify ''AWS re:Invent 2025'')"
    using a slugify_keeps_ascii_word_chars [of "CHR ''!''" "''a!''" "''AWS re:Invent 2025''"]
    by blast
  then show ?thesis
    using w a l n slugify_keeps_ascii_word_chars [of "CHR ''!''" "''a!''" "''AWS re:Invent 2025''"]
    by simp
qed

section \<open>Properties of the Booking model\<close>

lemma dropWhile_map_same:
  "(\<And>c. p (f c) = p c) \<Longrightarrow> dropWhile p (map f s) = map f (dropWhile p s)"
  by (induction s) auto

lemma trim_toLowerCase: "trim (toLowerCase s) = toLowerCase (trim s)"
  unfolding trim_def toLowerCase_def
  by (simp add: dropWhile_map_same isWhitespace_lowerChar rev_map)

lemma emailRegex_lang:
  "s \<in> lang emailRegex \<longleftrightarrow>
     (\<exists>l d t. s = l @ ''@'' @ d @ ''.'' @ t \<and> run notSpaceAt l \<and> run notSpaceAt d \<and> run notSpaceAt t)"
proof
  assume "s \<in> lang emailRegex"
  then show "\<exists>l d t. s = l @ ''@'' @ d @ ''.'' @ t \<and> run notSpaceAt l \<and> run notSpaceAt d \<and> run notSpaceAt t"
    unfolding emailRegex_def lang.simps(5) in_conc lang_Plus_Atom lang_Lit
    by auto
next
  assume "\<exists>l d t. s = l @ ''@'' @ d @ ''.'' @ t \<and> run notSpaceAt l \<and> run notSpaceAt d \<and> run notSpaceAt t"
  then obtain l d t where s: "s = l @ (''@'' @ (d @ (''.'' @ t)))"
    and r: "run notSpaceAt l" "run notSpaceAt d" "run notSpaceAt t"
    by auto
  show "s \<in> lang emailRegex"
    unfolding s emailRegex_def lang.simps(5)
    by (intro concI) (simp_all add: lang_Plus_Atom lang_Lit r)
qed

lemma emailValidator_shape:
  "emailValidator s \<longleftrightarrow>
     (\<exists>l d t. s = l @ ''@'' @ d @ ''.'' @ t \<and> run notSpaceAt l \<and> run notSpaceAt d \<and> run notSpaceAt t)"
  by (simp add: emailValidator_def matches_lang emailRegex_lang)

lemma emailValidator_parts:
  assumes "emailValidator s"
  shows "count_list s (CHR ''@'') = 1"
    and "list_all (\<lambda>c. \<not> isWhitespace c) s"
    and "CHR ''.'' \<in> set (tl (dropWhile (\<lambda>c. c \<noteq> CHR ''@'') s))"
proof -
  obtain l d t where s: "s = l @ ''@'' @ d @ ''.'' @ t"
    and r: "run notSpaceAt l" "run notSpaceAt d" "run notSpaceAt t"
    using assms by (auto simp: emailValidator_shape)
  have no_at: "CHR ''@'' \<notin> set l" "CHR ''@'' \<notin> set d" "CHR ''@'' \<notin> set t"
    using r by (auto simp: run_def notSpaceAt_def list_all_iff)
  then have "count_list l (CHR ''@'') = 0" "count_list d (CHR ''@'') = 0" "count_list t (CHR ''@'') = 0"
    by simp_all
  then show "count_list s (CHR ''@'') = 1" by (simp add: s)
  have "\<not> isWhitespace (CHR ''@'')" "\<not> isWhitespace (CHR ''.'')"
    by (simp_all add: isWhitespace_def)
  then show "list_all (\<lambda>c. \<not> isWhitespace c) s"
    using r by (auto simp: s run_def notSpaceAt_def list_all_iff)
  have "\<forall>c \<in> set l. c \<noteq> CHR ''@''"
    using no_at by auto
  then have "dropWhile (\<lambda>c. c \<noteq> CHR ''@'') s = ''@'' @ d @ ''.'' @ t"
    unfolding s by (simp add: dropWhile_append)
  then show "CHR ''.'' \<in> set (tl (dropWhile (\<lambda>c. c \<noteq> CHR ''@'') s))" by simp
qed

lemma invalidFormat_iff:
  "InvalidFormat ''email'' \<in> set (validateBooking (newBooking oid em)) \<longleftrightarrow>
     (\<exists>v. em = Some v \<and> emailSetter v \<noteq> [] \<and> \<not> emailValidator (emailSetter v))"
  by (cases oid; cases em) (auto simp: validateBooking_def validateEventId_def validateEmail_def newBooking_def)

lemma missingEmail_iff:
  "MissingField ''email'' \<in> set (validateBooking (newBooking oid em)) \<longleftrightarrow>
     (em = None \<or> (\<exists>v. em = Some v \<and> emailSetter v = []))"
  by (cases oid; cases em) (auto simp: validateBooking_def validateEventId_def validateEmail_def newBooking_def)

lemma double_at_rejected: "\<not> emailValidator (emailSetter ''user@@example.com'')"
  by (simp add: emailValidator_def emailSetter_def trim_def toLowerCase_def lowerChar_def
      char_of_eq_iff rx_eval)

text \<open>
  C3 (as the claim states it, refuted). An email of blanks is trimmed to the empty string,
  which does not match the pattern; the \<open>required\<close> validator of the path rejects it, and
  the error is the missing field, not the invalid format.
\<close>

theorem blank_email_is_missing_field:
  "emailSetter ''   '' = '''' \<and>
   \<not> emailValidator (emailSetter ''   '') \<and>
   validateBooking (newBooking (Some 1) (Some ''   '')) = [MissingField ''email''] \<and>
   InvalidFormat ''email'' \<notin> set (validateBooking (newBooking (Some 1) (Some ''   '')))"
proof -
  have e: "emailSetter ''   '' = ''''"
    by (simp add: emailSetter_def trim_def toLowerCase_def lowerChar_def isWhitespace_def)
  have "\<not> emailValidator ''''"
    by (simp add: emailValidator_def rx_eval)
  moreover have "validateBooking (newBooking (Some 1) (Some ''   '')) = [MissingField ''email'']"
    by (simp add: validateBooking_def validateEventId_def validateEmail_def newBooking_def e)
  ultimately show ?thesis
    using e by simp
qed

text \<open>
  C3 (amended). For every Booking candidate the email is trimmed and lowercased (in
  either order) when it is set, and validation fails with \<open>InvalidFormat email\<close> if and
  only if the normalised email is present, not empty, and does not match the pattern;
  an absent or empty email fails with \<open>MissingField email\<close>. A string matches the pattern
  exactly when it is \<open>l@d.t\<close> with \<open>l\<close>, \<open>d\<close>, \<open>t\<close> non-empty and free of whitespace and of \<open>@\<close>:
  so it has one \<open>@\<close>, no whitespace and a dot in the part after the \<open>@\<close>. Every candidate
  with the email \<open>user@@example.com\<close> fails with \<open>InvalidFormat email\<close>.
\<close>

theorem booking_email_format:
  "email (newBooking oid em) = map_option (\<lambda>v. trim (toLowerCase v)) em \<and>
   trim (toLowerCase v) = toLowerCase (trim v) \<and>
   (InvalidFormat ''email'' \<in> set (validateBooking (newBooking oid em)) \<longleftrightarrow>
      (\<exists>v. em = Some v \<and> emailSetter v \<noteq> [] \<and> \<not> matches emailRegex (emailSetter v))) \<and>
   (MissingField ''email'' \<in> set (validateBooking (newBooking oid em)) \<longleftrightarrow>
      (em = None \<or> (\<exists>v. em = Some v \<and> emailSetter v = []))) \<and>
   (matches emailRegex s \<longleftrightarrow>
      (\<exists>l d t. s = l @ ''@'' @ d @ ''.'' @ t \<and>
         run notSpaceAt l \<and> run notSpaceAt d \<and> run notSpaceAt t)) \<and>
   (matches emailRegex s \<longrightarrow>
      count_list s (CHR ''@'') = 1 \<and> list_all (\<lambda>c. \<not> isWhitespace c) s \<and>
      CHR ''.'' \<in> set (tl (dropWhile (\<lambda>c. c \<noteq> CHR ''@'') s))) \<and>
   InvalidFormat ''email'' \<in> set (validateBooking (newBooking oid (Some ''user@@example.com'')))"
proof -
  have "email (newBooking oid em) = map_option (\<lambda>v. trim (toLowerCase v)) em"
    by (cases em) (simp_all add: newBooking_def emailSetter_def)
  moreover have "emailSetter ''user@@example.com'' \<noteq> []"
    by (simp add: emailSetter_def trim_def toLowerCase_def lowerChar_def isWhitespace_def)
  then have "InvalidFormat ''email'' \<in> set (validateBooking (newBooking oid (Some ''user@@example.com'')))"
    using double_at_rejected by (simp add: invalidFormat_iff)
  moreover have "matches emailRegex s \<longrightarrow>
      count_list s (CHR ''@'') = 1 \<and> list_all (\<lambda>c. \<not> isWhitespace c) s \<and>
      CHR ''.'' \<in> set (tl (dropWhile (\<lambda>c. c \<noteq> CHR ''@'') s))"
    using emailValidator_parts [of s] by (simp add: emailValidator_def)
  ultimately show ?thesis
    using trim_toLowerCase [of v] invalidFormat_iff [of oid em] missingEmail_iff [of oid em]
      emailValidator_shape [of s]
    by (simp add: emailValidator_def)
qed

theorem booking_email_format_witness:
  "matches emailRegex ''a@b.c'' \<and> count_list ''a@b.c'' (CHR ''@'') = 1 \<and>
   email (newBooking (Some 1) (Some '' User@Example.COM '')) = Some ''user@example.com'' \<and>
   InvalidFormat ''email'' \<in> set (validateBooking (newBooking (Some 1) (Some ''user@@example.com'')))"
proof -
  have m: "matches emailRegex ''a@b.c''"
    by (simp add: rx_eval)
  have n: "trim (toLowerCase '' User@Example.COM '') = ''user@example.com''"
    by (simp add: trim_def toLowerCase_def lowerChar_def isWhitespace_def char_of_eq_iff)
  show ?thesis
    using m n
      booking_email_format [where s = "''a@b.c''" and oid = "Some 1"
        and em = "Some '' User@Example.COM ''"]
    by simp
qed

lemma saveBooking_invalid:
  "validateBooking doc \<noteq> [] \<Longrightarrow> saveBooking store doc = (Inl (validateBooking doc), 0)"
  by (cases "validateBooking doc") (simp_all add: saveBooking_def)

lemma saveBooking_valid:
  "validateBooking doc = [] \<Longrightarrow>
     saveBooking store doc =
       (case preSave store doc of (Inl e, n) \<Rightarrow> (Inl [e], n) | (Inr u, n) \<Rightarrow> (Inr doc, n))"
  by (simp add: saveBooking_def)

lemma saveBooking_modified:
  assumes "validateBooking doc = []" "isModified doc ''eventId''"
  shows "saveBooking store doc =
     (if findById store (eventId doc) = None then (Inl [DanglingReference ''eventId''], 1)
      else (Inr doc, 1))"
  using assms
  by (cases "findById store (eventId doc)") (simp_all add: saveBooking_valid preSave_def)

lemma saveBooking_unmodified:
  assumes "validateBooking doc = []" "\<not> isModified doc ''eventId''"
  shows "saveBooking store doc = (Inr doc, 0)"
  using assms by (simp add: saveBooking_valid preSave_def)

lemma createBooking_valid_modified:
  assumes "validateBooking (createBooking oid em) = []"
  shows "isModified (createBooking oid em) ''eventId''"
  using assms
  by (cases oid) (simp_all add: validateBooking_def validateEventId_def createBooking_def
      isModified_def)

lemma newBooking_createBooking:
  "newBooking None em = createBooking Absent em"
  "newBooking (Some i) em = createBooking (Given i) em"
  by (simp_all add: newBooking_def createBooking_def)

text \<open>
  C4 (as the claim states it, refuted). A new Booking with the identity 8, which no Event
  of the store has, and the email \<open>user@@example.com\<close>: its \<open>eventId\<close> is newly set and does
  not resolve, yet saving it fails with \<open>InvalidFormat email\<close> and not with
  \<open>DanglingReference eventId\<close>, and the store is not read: schema validation fails before
  the pre-save hook runs.
\<close>

theorem invalid_booking_skips_event_lookup:
  "isModified (createBooking (Given 8) (Some ''user@@example.com'')) ''eventId'' \<and>
   findById [\<lparr>ev_id = 7, ev_title = ''T'', ev_slug = ''t''\<rparr>]
     (eventId (createBooking (Given 8) (Some ''user@@example.com''))) = None \<and>
   saveBooking [\<lparr>ev_id = 7, ev_title = ''T'', ev_slug = ''t''\<rparr>]
     (createBooking (Given 8) (Some ''user@@example.com''))
     = (Inl [InvalidFormat ''email''], 0) \<and>
   fst (saveBooking [\<lparr>ev_id = 7, ev_title = ''T'', ev_slug = ''t''\<rparr>]
     (createBooking (Given 8) (Some ''user@@example.com'')))
     \<noteq> Inl [DanglingReference ''eventId'']"
proof -
  have e: "emailSetter ''user@@example.com'' = ''user@@example.com''"
    by (simp add: emailSetter_def trim_def toLowerCase_def lowerChar_def isWhitespace_def)
  have v: "validateBooking (createBooking (Given 8) (Some ''user@@example.com''))
      = [InvalidFormat ''email'']"
    using double_at_rejected
    by (simp add: validateBooking_def validateEventId_def validateEmail_def createBooking_def e)
  have s: "saveBooking [\<lparr>ev_id = 7, ev_title = ''T'', ev_slug = ''t''\<rparr>]
      (createBooking (Given 8) (Some ''user@@example.com'')) = (Inl [InvalidFormat ''email''], 0)"
    by (simp add: saveBooking_invalid v)
  have m: "isModified (createBooking (Given 8) (Some ''user@@example.com'')) ''eventId''"
    by (simp add: isModified_def createBooking_def)
  have f: "findById [\<lparr>ev_id = 7, ev_title = ''T'', ev_slug = ''t''\<rparr>]
      (eventId (createBooking (Given 8) (Some ''user@@example.com''))) = None"
    by (simp add: findById_def createBooking_def)
  show ?thesis
    using m f by (simp add: s)
qed

text \<open>
  C4 (amended). Saving a Booking validates it against the schema first. When validation
  fails, the save fails with the errors of the validation and the store is not read.
  When validation passes and the \<open>eventId\<close> is modified (it is in every new Booking that
  passes validation, and when it is set to another value), the pre-save hook reads the
  store once, looking the Event up by that identity, and the save fails with
  \<open>DanglingReference eventId\<close> if and only if the store has no such Event. When validation
  passes and the \<open>eventId\<close> is not modified (set to the value it has, or only the email is
  set), the store is not read and the save passes. The hook by itself reads the store
  exactly when the \<open>eventId\<close> is modified, also when it was given as \<open>null\<close>.
\<close>

theorem booking_event_reference:
  "(validateBooking doc \<noteq> [] \<longrightarrow> saveBooking store doc = (Inl (validateBooking doc), 0)) \<and>
   (validateBooking doc = [] \<and> isModified doc ''eventId'' \<longrightarrow>
      snd (saveBooking store doc) = 1 \<and>
      (fst (saveBooking store doc) = Inl [DanglingReference ''eventId'']
         \<longleftrightarrow> findById store (eventId doc) = None) \<and>
      (fst (saveBooking store doc) = Inr doc \<longleftrightarrow> findById store (eventId doc) \<noteq> None)) \<and>
   (validateBooking doc = [] \<and> \<not> isModified doc ''eventId'' \<longrightarrow>
      saveBooking store doc = (Inr doc, 0)) \<and>
   (findById store (Some i) = None \<longleftrightarrow> (\<forall>e \<in> set store. ev_id e \<noteq> i)) \<and>
   (validateBooking (createBooking oid em) = [] \<longrightarrow>
      isModified (createBooking oid em) ''eventId'') \<and>
   (eventId doc \<noteq> Some i \<longrightarrow> isModified (setEventId doc i) ''eventId'') \<and>
   \<not> isModified (setEventId (loadBooking i v) i) ''eventId'' \<and>
   \<not> isModified (setEmail (loadBooking i v) w) ''eventId'' \<and>
   (isModified doc ''eventId'' \<longrightarrow>
      snd (preSave store doc) = 1 \<and>
      (fst (preSave store doc) = Inl (DanglingReference ''eventId'')
         \<longleftrightarrow> findById store (eventId doc) = None)) \<and>
   (\<not> isModified doc ''eventId'' \<longrightarrow> preSave store doc = (Inr (), 0)) \<and>
   preSave store (createBooking Null em) = (Inl (DanglingReference ''eventId''), 1)"
proof -
  have "validateBooking doc \<noteq> [] \<Longrightarrow> saveBooking store doc = (Inl (validateBooking doc), 0)"
    by (rule saveBooking_invalid)
  moreover have "validateBooking doc = [] \<and> isModified doc ''eventId'' \<Longrightarrow>
      snd (saveBooking store doc) = 1 \<and>
      (fst (saveBooking store doc) = Inl [DanglingReference ''eventId'']
         \<longleftrightarrow> findById store (eventId doc) = None) \<and>
      (fst (saveBooking store doc) = Inr doc \<longleftrightarrow> findById store (eventId doc) \<noteq> None)"
    by (simp add: saveBooking_modified)
  moreover have "validateBooking doc = [] \<and> \<not> isModified doc ''eventId'' \<Longrightarrow>
      saveBooking store doc = (Inr doc, 0)"
    by (simp add: saveBooking_unmodified)
  moreover have "findById store (Some i) = None \<longleftrightarrow> (\<forall>e \<in> set store. ev_id e \<noteq> i)"
    by (auto simp: findById_def find_None_iff)
  moreover have "validateBooking (createBooking oid em) = [] \<Longrightarrow>
      isModified (createBooking oid em) ''eventId''"
    by (rule createBooking_valid_modified)
  moreover have "eventId doc \<noteq> Some i \<Longrightarrow> isModified (setEventId doc i) ''eventId''"
    by (simp add: isModified_def setEventId_def)
  moreover have "\<not> isModified (setEventId (loadBooking i v) i) ''eventId''"
    by (simp add: isModified_def setEventId_def loadBooking_def)
  moreover have "\<not> isModified (setEmail (loadBooking i v) w) ''eventId''"
    by (simp add: isModified_def setEmail_def loadBooking_def)
  moreover have "isModified doc ''eventId'' \<Longrightarrow>
      snd (preSave store doc) = 1 \<and>
      (fst (preSave store doc) = Inl (DanglingReference ''eventId'')
         \<longleftrightarrow> findById store (eventId doc) = None)"
    by (cases "findById store (eventId doc)") (simp_all add: preSave_def)
  moreover have "\<not> isModified doc ''eventId'' \<Longrightarrow> preSave store doc = (Inr (), 0)"
    by (simp add: preSave_def)
  moreover have "preSave store (createBooking Null em) = (Inl (DanglingReference ''eventId''), 1)"
    by (simp add: preSave_def createBooking_def isModified_def findById_def)
  ultimately show ?thesis
    by blast
qed

theorem booking_event_reference_witness:
  "validateBooking (createBooking (Given 8) (Some ''a@b.c'')) = [] \<and>
   isModified (createBooking (Given 8) (Some ''a@b.c'')) ''eventId'' \<and>
   saveBooking [\<lparr>ev_id = 7, ev_title = ''T'', ev_slug = ''t''\<rparr>] (createBooking (Given 8) (Some ''a@b.c''))
     = (Inl [DanglingReference ''eventId''], 1) \<and>
   saveBooking [\<lparr>ev_id = 7, ev_title = ''T'', ev_slug = ''t''\<rparr>] (createBooking (Given 7) (Some ''a@b.c''))
     = (Inr (createBooking (Given 7) (Some ''a@b.c'')), 1) \<and>
   validateBooking (setEmail (loadBooking 8 ''a@b.c'') ''c@d.e'') = [] \<and>
   \<not> isModified (setEmail (loadBooking 8 ''a@b.c'') ''c@d.e'') ''eventId'' \<and>
   saveBooking [\<lparr>ev_id = 7, ev_title = ''T'', ev_slug = ''t''\<rparr>] (setEmail (loadBooking 8 ''a@b.c'') ''c@d.e'')
     = (Inr (setEmail (loadBooking 8 ''a@b.c'') ''c@d.e''), 0) \<and>
   validateBooking (createBooking Null (Some ''a@b.c'')) = [MissingField ''eventId''] \<and>
   saveBooking [\<lparr>ev_id = 7, ev_title = ''T'', ev_slug = ''t''\<rparr>] (createBooking Null (Some ''a@b.c''))
     = (Inl [MissingField ''eventId''], 0)"
proof -
  let ?store = "[\<lparr>ev_id = 7, ev_title = ''T'', ev_slug = ''t''\<rparr>]"
  let ?d8 = "createBooking (Given 8) (Some ''a@b.c'')"
  let ?d7 = "createBooking (Given 7) (Some ''a@b.c'')"
  let ?dn = "createBooking Null (Some ''a@b.c'')"
  let ?upd = "setEmail (loadBooking 8 ''a@b.c'') ''c@d.e''"
  have s1: "emailSetter ''a@b.c'' = ''a@b.c''" and s2: "emailSetter ''c@d.e'' = ''c@d.e''"
    by (simp_all add: emailSetter_def trim_def toLowerCase_def lowerChar_def isWhitespace_def)
  have ok: "emailValidator ''a@b.c''" "emailValidator ''c@d.e''"
    by (simp_all add: emailValidator_def rx_eval)
  have v: "validateBooking ?d8 = []" "validateBooking ?d7 = []"
    using ok by (simp_all add: validateBooking_def validateEventId_def validateEmail_def
        createBooking_def s1)
  have vu: "validateBooking ?upd = []"
    using ok by (simp add: validateBooking_def validateEventId_def validateEmail_def
        setEmail_def loadBooking_def s1 s2)
  have vn: "validateBooking ?dn = [MissingField ''eventId'']"
    using ok by (simp add: validateBooking_def validateEventId_def validateEmail_def
        createBooking_def s1)
  have a: "findById ?store (eventId ?d8) = None"
    by (simp add: findById_def createBooking_def)
  have b: "findById ?store (eventId ?d7) \<noteq> None"
    by (simp add: findById_def createBooking_def)
  have m: "isModified ?d8 ''eventId''" "isModified ?d7 ''eventId''"
    using v booking_event_reference [where oid = "Given 8" and em = "Some ''a@b.c''",
        THEN conjunct2, THEN conjunct2, THEN conjunct2, THEN conjunct2, THEN conjunct1]
      booking_event_reference [where oid = "Given 7" and em = "Some ''a@b.c''",
        THEN conjunct2, THEN conjunct2, THEN conjunct2, THEN conjunct2, THEN conjunct1]
    by blast+
  have n: "\<not> isModified ?upd ''eventId''"
    by (rule booking_event_reference [where i = 8 and v = "''a@b.c''" and w = "''c@d.e''",
        THEN conjunct2, THEN conjunct2, THEN conjunct2, THEN conjunct2, THEN conjunct2,
        THEN conjunct2, THEN conjunct2, THEN conjunct1])
  have "snd (saveBooking ?store ?d8) = 1 \<and>
      fst (saveBooking ?store ?d8) = Inl [DanglingReference ''eventId'']"
    using a v(1) m(1) booking_event_reference [where doc = ?d8 and store = ?store, THEN conjunct2, THEN conjunct1] by blast
  then have r8: "saveBooking ?store ?d8 = (Inl [DanglingReference ''eventId''], 1)"
    by (simp add: prod_eq_iff)
  have "snd (saveBooking ?store ?d7) = 1 \<and> fst (saveBooking ?store ?d7) = Inr ?d7"
    using b v(2) m(2) booking_event_reference [where doc = ?d7 and store = ?store, THEN conjunct2, THEN conjunct1] by blast
  then have r7: "saveBooking ?store ?d7 = (Inr ?d7, 1)"
    by (simp add: prod_eq_iff)
  have ru: "saveBooking ?store ?upd = (Inr ?upd, 0)"
    using n vu booking_event_reference [where doc = ?upd and store = ?store, THEN conjunct2, THEN conjunct2, THEN conjunct1] by blast
  have "validateBooking ?dn \<noteq> []"
    unfolding vn by simp
  then have "saveBooking ?store ?dn = (Inl (validateBooking ?dn), 0)"
    using booking_event_reference [where doc = ?dn and store = ?store, THEN conjunct1] by blast
  then have rn: "saveBooking ?store ?dn = (Inl [MissingField ''eventId''], 0)"
    unfolding vn .
  show ?thesis
    using v(1) m(1) n vu vn r8 r7 ru rn by blast
qed

section \<open>Properties of the Event model\<close>

lemma uniqueSlug_fresh: "uniqueSlug taken clock k s \<notin> set taken"
proof (induction taken clock k s rule: uniqueSlug.induct)
  case (1 taken clock k slug)
  show ?case
  proof (cases "slug \<in> set taken")
    case True
    then show ?thesis using 1 by (subst uniqueSlug.simps) simp
  next
    case False
    then show ?thesis by (subst uniqueSlug.simps) simp
  qed
qed

lemma uniqueSlug_extends: "\<exists>rest. uniqueSlug taken clock k s = s @ rest"
proof (induction taken clock k s rule: uniqueSlug.induct)
  case (1 taken clock k slug)
  show ?case
  proof (cases "slug \<in> set taken")
    case True
    then obtain rest where "uniqueSlug taken clock (Suc k) (slug @ ''-'' @ decimal (clock k))
        = (slug @ ''-'' @ decimal (clock k)) @ rest"
      using 1 by blast
    then have "uniqueSlug taken clock k slug = slug @ (''-'' @ decimal (clock k) @ rest)"
      using True by (subst uniqueSlug.simps) simp
    then show ?thesis by blast
  next
    case False
    then have "uniqueSlug taken clock k slug = slug @ []"
      by (subst uniqueSlug.simps) simp
    then show ?thesis by blast
  qed
qed

lemma uniqueSlug_free: "s \<notin> set taken \<Longrightarrow> uniqueSlug taken clock k s = s"
  by (subst uniqueSlug.simps) simp

lemma uniqueSlug_suffix:
  assumes "s \<in> set taken"
  shows "\<exists>rest. uniqueSlug taken clock k s = s @ ''-'' @ decimal (clock k) @ rest"
proof -
  obtain rest where "uniqueSlug taken clock (Suc k) (s @ ''-'' @ decimal (clock k))
      = (s @ ''-'' @ decimal (clock k)) @ rest"
    using uniqueSlug_extends by blast
  then have "uniqueSlug taken clock k s = s @ ''-'' @ decimal (clock k) @ rest"
    using assms by (subst uniqueSlug.simps) simp
  then show ?thesis by blast
qed

lemma uniqueSlug_once:
  assumes "s \<in> set taken" "s @ ''-'' @ decimal (clock k) \<notin> set taken"
  shows "uniqueSlug taken clock k s = s @ ''-'' @ decimal (clock k)"
  using assms by (subst uniqueSlug.simps) (simp add: uniqueSlug_free)

lemma prepareEvent_ok:
  assumes "nonEmptyArray (in_agenda c)" "nonEmptyArray (in_tags c)"
  shows "prepareEvent store clock oid c =
     Inr \<lparr>ev_id = oid, ev_title = trim (in_title c),
          ev_slug = uniqueSlug (map ev_slug store) clock 0 (slugify (in_title c))\<rparr>"
  using assms by (simp add: prepareEvent_def checkCollection_def)

lemma persistEvent_ok:
  assumes "nonEmptyArray (in_agenda c)" "nonEmptyArray (in_tags c)"
  shows "persistEvent store clock oid c =
     Inr (store @ [\<lparr>ev_id = oid, ev_title = trim (in_title c),
          ev_slug = uniqueSlug (map ev_slug store) clock 0 (slugify (in_title c))\<rparr>])"
proof -
  have "\<not> slugTaken store (uniqueSlug (map ev_slug store) clock 0 (slugify (in_title c)))"
    unfolding slugTaken_def by (rule uniqueSlug_fresh)
  then show ?thesis
    by (simp add: persistEvent_def prepareEvent_ok [OF assms] insertEvent_def)
qed

lemma insertEvent_distinct:
  assumes "distinct (map ev_slug store)" "insertEvent store r = Inr store'"
  shows "distinct (map ev_slug store')"
  using assms by (auto simp: insertEvent_def slugTaken_def split: if_splits)

lemma persistEvent_distinct:
  assumes "distinct (map ev_slug store)" "persistEvent store clock oid c = Inr store'"
  shows "distinct (map ev_slug store')"
  using assms insertEvent_distinct
  by (auto simp: persistEvent_def split: sum.splits)




















text \<open>
  C2. Two Events whose titles have the same base slug are persisted, the second after the
  first and after any other records. Both are stored; the slug of the second is not the
  slug of the first and is not empty: it is the base slug followed by \<open>-\<close> and the digits of
  the time read (and by nothing more when that slug is free). The slugs of the store stay
  pairwise distinct.
\<close>

theorem event_slug_unique:
  assumes "distinct (map ev_slug store)"
    and "nonEmptyArray (in_agenda c1)" and "nonEmptyArray (in_tags c1)"
    and "nonEmptyArray (in_agenda c2)" and "nonEmptyArray (in_tags c2)"
    and "slugify (in_title c1) = slugify (in_title c2)"
  shows "\<exists>r1.
     persistEvent store clock1 i1 c1 = Inr (store @ [r1]) \<and>
     distinct (map ev_slug (store @ [r1])) \<and>
     (\<not> slugTaken store (slugify (in_title c1)) \<longrightarrow> ev_slug r1 = slugify (in_title c1)) \<and>
     (slugTaken store (slugify (in_title c1)) \<longrightarrow>
        (\<exists>rest. ev_slug r1 = slugify (in_title c1) @ ''-'' @ decimal (clock1 0) @ rest)) \<and>
     (\<forall>mid. \<exists>r2.
        persistEvent (store @ [r1] @ mid) clock2 i2 c2 = Inr (store @ [r1] @ mid @ [r2]) \<and>
        ev_slug r2 \<noteq> ev_slug r1 \<and> ev_slug r2 \<noteq> [] \<and>
        (\<exists>rest. ev_slug r2 = slugify (in_title c2) @ ''-'' @ decimal (clock2 0) @ rest) \<and>
        (slugify (in_title c2) @ ''-'' @ decimal (clock2 0) \<notin> set (map ev_slug (store @ [r1] @ mid))
           \<longrightarrow> ev_slug r2 = slugify (in_title c2) @ ''-'' @ decimal (clock2 0)) \<and>
        (distinct (map ev_slug (store @ [r1] @ mid))
           \<longrightarrow> distinct (map ev_slug (store @ [r1] @ mid @ [r2]))))"
proof -
  define base where "base = slugify (in_title c2)"
  define s1 where "s1 = uniqueSlug (map ev_slug store) clock1 0 base"
  define r1 where "r1 = \<lparr>ev_id = i1, ev_title = trim (in_title c1), ev_slug = s1\<rparr>"
  have p1: "persistEvent store clock1 i1 c1 = Inr (store @ [r1])"
    using persistEvent_ok [OF assms(2,3)] assms(6) by (simp add: r1_def s1_def base_def)
  have f1: "s1 \<notin> set (map ev_slug store)"
    unfolding s1_def by (rule uniqueSlug_fresh)
  have d1: "distinct (map ev_slug (store @ [r1]))"
    using assms(1) f1 by (simp add: r1_def)
  have free1: "\<not> slugTaken store (slugify (in_title c1)) \<longrightarrow> ev_slug r1 = slugify (in_title c1)"
    using uniqueSlug_free [of base "map ev_slug store" clock1 0] assms(6)
    by (simp add: slugTaken_def r1_def s1_def base_def)
  have coll1: "slugTaken store (slugify (in_title c1)) \<longrightarrow>
        (\<exists>rest. ev_slug r1 = slugify (in_title c1) @ ''-'' @ decimal (clock1 0) @ rest)"
    using uniqueSlug_suffix [of base "map ev_slug store" clock1 0] assms(6)
    by (simp add: slugTaken_def r1_def s1_def base_def)
  have second: "\<exists>r2.
        persistEvent (store @ [r1] @ mid) clock2 i2 c2 = Inr (store @ [r1] @ mid @ [r2]) \<and>
        ev_slug r2 \<noteq> ev_slug r1 \<and> ev_slug r2 \<noteq> [] \<and>
        (\<exists>rest. ev_slug r2 = slugify (in_title c2) @ ''-'' @ decimal (clock2 0) @ rest) \<and>
        (slugify (in_title c2) @ ''-'' @ decimal (clock2 0) \<notin> set (map ev_slug (store @ [r1] @ mid))
           \<longrightarrow> ev_slug r2 = slugify (in_title c2) @ ''-'' @ decimal (clock2 0)) \<and>
        (distinct (map ev_slug (store @ [r1] @ mid))
           \<longrightarrow> distinct (map ev_slug (store @ [r1] @ mid @ [r2])))" for mid
  proof -
    define s2 where "s2 = uniqueSlug (map ev_slug (store @ [r1] @ mid)) clock2 0 base"
    define r2 where "r2 = \<lparr>ev_id = i2, ev_title = trim (in_title c2), ev_slug = s2\<rparr>"
    have p2: "persistEvent (store @ [r1] @ mid) clock2 i2 c2 = Inr (store @ [r1] @ mid @ [r2])"
      using persistEvent_ok [OF assms(4,5), of "store @ [r1] @ mid" clock2 i2]
      by (simp add: r2_def s2_def base_def)
    have f2: "s2 \<notin> set (map ev_slug (store @ [r1] @ mid))"
      unfolding s2_def by (rule uniqueSlug_fresh)
    have taken: "base \<in> set (map ev_slug (store @ [r1] @ mid))"
    proof (cases "base \<in> set (map ev_slug store)")
      case True
      then show ?thesis by simp
    next
      case False
      then have "s1 = base" unfolding s1_def by (rule uniqueSlug_free)
      then show ?thesis by (simp add: r1_def)
    qed
    obtain rest where rest: "s2 = base @ ''-'' @ decimal (clock2 0) @ rest"
      unfolding s2_def using uniqueSlug_suffix [OF taken] by blast
    have once: "base @ ''-'' @ decimal (clock2 0) \<notin> set (map ev_slug (store @ [r1] @ mid))
        \<Longrightarrow> s2 = base @ ''-'' @ decimal (clock2 0)"
      unfolding s2_def using uniqueSlug_once [OF taken] by blast
    have "ev_slug r2 \<noteq> ev_slug r1"
      using f2 by (auto simp: r1_def r2_def)
    moreover have "ev_slug r2 \<noteq> []"
      using rest by (simp add: r2_def)
    moreover have "\<exists>rest. ev_slug r2 = slugify (in_title c2) @ ''-'' @ decimal (clock2 0) @ rest"
      using rest by (auto simp: r2_def base_def)
    moreover have "slugify (in_title c2) @ ''-'' @ decimal (clock2 0)
          \<notin> set (map ev_slug (store @ [r1] @ mid))
        \<longrightarrow> ev_slug r2 = slugify (in_title c2) @ ''-'' @ decimal (clock2 0)"
      using once by (simp add: r2_def base_def)
    moreover have "distinct (map ev_slug (store @ [r1] @ mid))
        \<longrightarrow> distinct (map ev_slug (store @ [r1] @ mid @ [r2]))"
      using f2 by (auto simp: r2_def)
    ultimately show ?thesis
      using p2 by blast
  qed
  show ?thesis
    using p1 d1 free1 coll1 second by blast
qed

theorem event_slug_unique_witness:
  "slugify ''Test Event'' = slugify ''test event!'' \<and>
   (\<exists>r1 r2.
      persistEvent [] (\<lambda>k. 1234567890) 1
        \<lparr>in_title = ''Test Event'', in_agenda = JArr [''a''], in_tags = JArr [''t'']\<rparr> = Inr [r1] \<and>
      persistEvent [r1] (\<lambda>k. 1234567890) 2
        \<lparr>in_title = ''test event!'', in_agenda = JArr [''b''], in_tags = JArr [''u'']\<rparr> = Inr [r1, r2] \<and>
      ev_slug r1 = ''test-event'' \<and> ev_slug r2 = ''test-event-1234567890'' \<and>
      ev_slug r2 \<noteq> ev_slug r1 \<and> ev_slug r2 \<noteq> [] \<and> distinct (map ev_slug [r1, r2]))"
proof -
  let ?c1 = "\<lparr>in_title = ''Test Event'', in_agenda = JArr [''a''], in_tags = JArr [''t'']\<rparr>"
  let ?c2 = "\<lparr>in_title = ''test event!'', in_agenda = JArr [''b''], in_tags = JArr [''u'']\<rparr>"
  let ?clock = "\<lambda>k::nat. 1234567890 :: nat"
  have s1: "slugify ''Test Event'' = ''test-event''"
    by (simp add: slug_eval)
  have s2: "slugify ''test event!'' = ''test-event''"
    by (simp add: slug_eval)
  have d: "decimal 1234567890 = ''1234567890''"
    by (simp add: decimal.simps digitChar_def char_of_eq_iff)
  have h: "distinct (map ev_slug [])" "nonEmptyArray (in_agenda ?c1)" "nonEmptyArray (in_tags ?c1)"
    "nonEmptyArray (in_agenda ?c2)" "nonEmptyArray (in_tags ?c2)"
    "slugify (in_title ?c1) = slugify (in_title ?c2)"
    by (simp_all add: nonEmptyArray_def s1 s2)
  obtain r1 where r1:
    "persistEvent [] ?clock 1 ?c1 = Inr ([] @ [r1])"
    "\<forall>mid. \<exists>r2.
        persistEvent ([] @ [r1] @ mid) ?clock 2 ?c2 = Inr ([] @ [r1] @ mid @ [r2]) \<and>
        ev_slug r2 \<noteq> ev_slug r1 \<and> ev_slug r2 \<noteq> [] \<and>
        (\<exists>rest. ev_slug r2 = slugify (in_title ?c2) @ ''-'' @ decimal (?clock 0) @ rest) \<and>
        (slugify (in_title ?c2) @ ''-'' @ decimal (?clock 0) \<notin> set (map ev_slug ([] @ [r1] @ mid))
           \<longrightarrow> ev_slug r2 = slugify (in_title ?c2) @ ''-'' @ decimal (?clock 0)) \<and>
        (distinct (map ev_slug ([] @ [r1] @ mid))
           \<longrightarrow> distinct (map ev_slug ([] @ [r1] @ mid @ [r2])))"
    using event_slug_unique [OF h, of ?clock 1 ?clock 2] by blast
  obtain r2 where r2:
    "persistEvent ([] @ [r1] @ []) ?clock 2 ?c2 = Inr ([] @ [r1] @ [] @ [r2])"
    "ev_slug r2 \<noteq> ev_slug r1" "ev_slug r2 \<noteq> []"
    "slugify (in_title ?c2) @ ''-'' @ decimal (?clock 0) \<notin> set (map ev_slug ([] @ [r1] @ []))
        \<longrightarrow> ev_slug r2 = slugify (in_title ?c2) @ ''-'' @ decimal (?clock 0)"
    "distinct (map ev_slug ([] @ [r1] @ []))
        \<longrightarrow> distinct (map ev_slug ([] @ [r1] @ [] @ [r2]))"
    using r1(2) by blast
  have "persistEvent [] ?clock 1 ?c1
      = Inr [\<lparr>ev_id = 1, ev_title = ''Test Event'', ev_slug = ''test-event''\<rparr>]"
    by (simp add: persistEvent_def prepareEvent_def checkCollection_def nonEmptyArray_def
        insertEvent_def slugTaken_def s1 uniqueSlug.simps trim_def isWhitespace_def)
  then have e1: "ev_slug r1 = ''test-event''"
    using r1(1) by auto
  then have e2: "ev_slug r2 = ''test-event-1234567890''"
    using r2(4) by (simp add: s2 d)
  show ?thesis
    using r1(1) r2(1,2,3,5) e1 e2 s1 s2 by auto
qed

section \<open>Properties of the connection manager\<close>

lemmas conn_eval =
  runEvents_def emptyCache_def connectDB_def settle_def resumeCall_def resume_def
  promiseState_def pendingAttempts_def

text \<open>
  The schedules of the tests of the module (lib/__tests__/mongodb.test.ts): two calls
  while the attempt is in flight share it and return its handle, a call after the
  connection returns the cached handle and starts nothing, and a call after the \<open>catch\<close>
  block of a failed call starts a new attempt.
\<close>

lemma connectDB_shares_attempt:
  "runEvents emptyCache [Call 1, Call 2, Resolve 0 7, Resume 1, Resume 2, Call 3] =
     \<lparr>conn = Some 7, promise = Some 0, attempts = [Fulfilled 7], waiting = [],
      finished = [(1, Returned 7), (2, Returned 7), (3, Returned 7)]\<rparr>"
  by (simp add: conn_eval)

lemma connectDB_retries_after_catch:
  "runEvents emptyCache [Call 1, Reject 0 ''down'', Resume 1, Call 2] =
     \<lparr>conn = None, promise = Some 1, attempts = [Rejected ''down'', Pending],
      waiting = [(2, 1)], finished = [(1, Threw ''down'')]\<rparr>"
  by (simp add: conn_eval)

text \<open>
  C7 (the code departs from the claim). The \<open>catch\<close> block sets \<open>cached.promise = null\<close>
  whatever promise the cache holds by then. Call 1 starts attempt 0, which is rejected.
  Before the \<open>catch\<close> block of call 1 runs, call 2 finds the rejected promise in the cache
  and awaits it. The \<open>catch\<close> block of call 1 clears the cache, and call 3 starts
  attempt 1. Then the \<open>catch\<close> block of call 2 runs: it clears the cache again, while
  attempt 1 is in flight. Call 4 finds no promise and starts attempt 2: two attempts are
  in flight at once, and call 2, made after the failure, has thrown the cached failure
  instead of retrying.
\<close>

theorem stale_catch_clears_attempt_in_flight:
  "runEvents emptyCache [Call 1, Reject 0 ''down'', Call 2] =
     \<lparr>conn = None, promise = Some 0, attempts = [Rejected ''down''],
      waiting = [(1, 0), (2, 0)], finished = []\<rparr> \<and>
   runEvents emptyCache [Call 1, Reject 0 ''down'', Call 2, Resume 1, Call 3] =
     \<lparr>conn = None, promise = Some 1, attempts = [Rejected ''down'', Pending],
      waiting = [(2, 0), (3, 1)], finished = [(1, Threw ''down'')]\<rparr> \<and>
   runEvents emptyCache [Call 1, Reject 0 ''down'', Call 2, Resume 1, Call 3, Resume 2] =
     \<lparr>conn = None, promise = None, attempts = [Rejected ''down'', Pending],
      waiting = [(3, 1)], finished = [(1, Threw ''down''), (2, Threw ''down'')]\<rparr> \<and>
   runEvents emptyCache [Call 1, Reject 0 ''down'', Call 2, Resume 1, Call 3, Resume 2, Call 4] =
     \<lparr>conn = None, promise = Some 2, attempts = [Rejected ''down'', Pending, Pending],
      waiting = [(3, 1), (4, 2)], finished = [(1, Threw ''down''), (2, Threw ''down'')]\<rparr> \<and>
   pendingAttempts (runEvents emptyCache
      [Call 1, Reject 0 ''down'', Call 2, Resume 1, Call 3, Resume 2, Call 4]) = [1, 2]"
  by (simp add: conn_eval)

text \<open>
  C9. Loading the module throws \<open>Please define the MONGODB_URI environment variable inside
  .env.local\<close> exactly when \<open>MONGODB_URI\<close> is undefined or the empty string. Then there is no
  module, hence no \<open>connectDB\<close> to call; and a load that succeeds starts no connection
  attempt: the cache is the one of \<open>global.mongoose\<close>, or the empty one.
\<close>

theorem missing_uri_throws:
  "missingUri = ''Please define the MONGODB_URI environment variable inside .env.local'' \<and>
   (loadModule env global = Inl missingUri \<longleftrightarrow>
      env ''MONGODB_URI'' = None \<or> env ''MONGODB_URI'' = Some '''') \<and>
   (env ''MONGODB_URI'' = None \<or> env ''MONGODB_URI'' = Some ''''
      \<longrightarrow> (\<forall>m. loadModule env global \<noteq> Inr m)) \<and>
   (\<forall>m g. loadModule env global = Inr (m, g) \<longrightarrow>
      env ''MONGODB_URI'' = Some (uri m) \<and> uri m \<noteq> '''' \<and> g = Some (cached m) \<and>
      cached m = (case global of None \<Rightarrow> emptyCache | Some c \<Rightarrow> c)) \<and>
   attempts emptyCache = []"
proof (cases "env ''MONGODB_URI''")
  case None
  then show ?thesis
    by (simp add: loadModule_def missingUri_def emptyCache_def)
next
  case (Some u)
  then show ?thesis
    by (cases "u = []") (auto simp: loadModule_def missingUri_def emptyCache_def Let_def)
qed

theorem missing_uri_throws_witness:
  "loadModule (\<lambda>k. None) None = Inl missingUri \<and>
   loadModule [''MONGODB_URI'' \<mapsto> ''''] None = Inl missingUri \<and>
   loadModule [''MONGODB_URI'' \<mapsto> ''mongodb://localhost:27017/test''] None
     = Inr (\<lparr>uri = ''mongodb://localhost:27017/test'', cached = emptyCache\<rparr>, Some emptyCache)"
proof -
  have a: "(\<lambda>k::string. None :: string option) ''MONGODB_URI'' = None"
    by simp
  have b: "[''MONGODB_URI'' \<mapsto> ''''] ''MONGODB_URI'' = Some ''''"
    by simp
  have c: "loadModule [''MONGODB_URI'' \<mapsto> ''mongodb://localhost:27017/test''] None
     = Inr (\<lparr>uri = ''mongodb://localhost:27017/test'', cached = emptyCache\<rparr>, Some emptyCache)"
    by (simp add: loadModule_def)
  show ?thesis
    using a b c
      missing_uri_throws [of "\<lambda>k. None" None]
      missing_uri_throws [of "[''MONGODB_URI'' \<mapsto> '''']" None]
    by blast
qed

end
